theory Spec2Isabelle
  imports Main "HOL-Library.Char_ord"
begin

section \<open>prom-config-watcher: a model of \<^verbatim>\<open>main.go\<close>\<close>

text \<open>
  The program watches a directory, waits for a quiet period after each change, rewrites
  every file of the directory with the environment variables expanded into a flat target
  directory, and asks Prometheus to reload. This theory embeds \<^verbatim>\<open>main.go\<close> function by
  function and states the properties of its behaviour.

  Conventions of the model:
  \<^item> A \<^verbatim>\<open>time.Time\<close> is an instant on one time line, counted in nanoseconds from Go's zero
    time (\<^verbatim>\<open>time.Time{}\<close>, 1 January of year 1); \<^verbatim>\<open>Before\<close> is the strict order.
  \<^item> A path is the list of the elements of an absolute, clean, slash-separated path
    (\<^verbatim>\<open>/config/a.yml\<close> is \<open>[''config'', ''a.yml'']\<close>).
  \<^item> Everything the program reads from outside (the clock, the files, the environment
    variables, the result of the HTTP request) is an argument; everything it does to the
    outside (files written, log calls, HTTP requests) is collected in a record.
  \<^item> The calls into Go's standard library (\<^verbatim>\<open>os.Expand\<close>, \<^verbatim>\<open>path.Join\<close>, \<^verbatim>\<open>path.Split\<close>,
    channels, timers) are modelled after the library's source and documentation.
\<close>

subsection \<open>\<^verbatim>\<open>os.ExpandEnv\<close> (Go standard library, \<^verbatim>\<open>os/env.go\<close>)\<close>

text \<open>
  \<^verbatim>\<open>switch c { case '*', '#', '$', '@', '!', '?', '-', '0', ..., '9': return true }\<close>
\<close>

definition isShellSpecialVar :: "char \<Rightarrow> bool" where
  "isShellSpecialVar c = (c \<in> set ''*#$@!?-0123456789'')"

text \<open>
  \<^verbatim>\<open>return c == '_' || '0' <= c && c <= '9' || 'a' <= c && c <= 'z' || 'A' <= c && c <= 'Z'\<close>
\<close>

definition isAlphaNum :: "char \<Rightarrow> bool" where
  "isAlphaNum c = (c = CHR ''_'' \<or> (CHR ''0'' \<le> c \<and> c \<le> CHR ''9'') \<or>
     (CHR ''a'' \<le> c \<and> c \<le> CHR ''z'') \<or> (CHR ''A'' \<le> c \<and> c \<le> CHR ''Z''))"

text \<open>
  The loop of \<^verbatim>\<open>getShellName\<close> that scans to the closing brace, from index \<open>i\<close>:
  \<^verbatim>\<open>
  for i := 1; i < len(s); i++ {
      if s[i] == '}' {
          if i == 1 { return "", 2 }   // Bad syntax; eat "${}"
          return s[1:i], i + 1
      }
  }
  return "", 1                         // Bad syntax; eat "${"
  \<close>
\<close>

function scanBrace :: "string \<Rightarrow> nat \<Rightarrow> string \<times> nat" where
  "scanBrace s i =
     (if i < length s then
        (if s ! i = CHR ''}'' then
           (if i = 1 then ([], 2) else (take (i - 1) (drop 1 s), i + 1))
         else scanBrace s (Suc i))
      else ([], 1))"
  by pat_completeness auto
termination
  by (relation "measure (\<lambda>(s, i). length s - i)") auto

text \<open>
  The loop that scans alphanumerics:
  \<^verbatim>\<open>for i = 0; i < len(s) && isAlphaNum(s[i]); i++ { }\<close>
\<close>

function scanAlnum :: "string \<Rightarrow> nat \<Rightarrow> nat" where
  "scanAlnum s i = (if i < length s \<and> isAlphaNum (s ! i) then scanAlnum s (Suc i) else i)"
  by pat_completeness auto
termination
  by (relation "measure (\<lambda>(s, i). length s - i)") auto

text \<open>
  \<^verbatim>\<open>getShellName\<close> returns the name that begins the string and the number of bytes
  consumed to extract it. It reads \<^verbatim>\<open>s[0]\<close> first, which panics on the empty string:
  that is \<open>None\<close>.
  \<^verbatim>\<open>
  switch {
  case s[0] == '{':
      if len(s) > 2 && isShellSpecialVar(s[1]) && s[2] == '}' { return s[1:2], 3 }
      (scan to closing brace)
  case isShellSpecialVar(s[0]):
      return s[0:1], 1
  }
  (scan alphanumerics)
  return s[:i], i
  \<close>
\<close>

definition getShellName :: "string \<Rightarrow> (string \<times> nat) option" where
  "getShellName s =
     (case s of
        [] \<Rightarrow> None
      | c # r \<Rightarrow>
          if c = CHR ''{'' then
            (if length s > 2 \<and> isShellSpecialVar (s ! 1) \<and> s ! 2 = CHR ''}''
             then Some (take 1 (drop 1 s), 3)
             else Some (scanBrace s 1))
          else if isShellSpecialVar c then Some (take 1 s, 1)
          else (let i = scanAlnum s 0 in Some (take i s, i)))"

text \<open>
  \<^verbatim>\<open>os.Expand(s, mapping)\<close>, as it is since Go 1.11. The Go loop walks an index \<open>j\<close> over
  \<open>s\<close> and copies the text between two references in one piece; the recursion below is on
  the rest of the string from \<open>j\<close> on and copies it byte by byte. (The allocation of
  \<^verbatim>\<open>buf\<close> and the shortcut that returns \<open>s\<close> itself when it has no reference are left
  out: they do not change the result.)
  \<^verbatim>\<open>
  for j := 0; j < len(s); j++ {
      if s[j] == '$' && j+1 < len(s) {
          buf = append(buf, s[i:j]...)
          name, w := getShellName(s[j+1:])
          if name == "" && w > 0 {
              // Encountered invalid syntax; eat the characters.
          } else if name == "" {
              // Valid syntax, but $ was not followed by a name. Leave the dollar untouched.
              buf = append(buf, s[j])
          } else {
              buf = append(buf, mapping(name)...)
          }
          j += w
          i = j + 1
      }
  }
  return string(buf) + s[i:]
  \<close>
  \<^verbatim>\<open>getShellName\<close> is only called behind the guard \<^verbatim>\<open>j+1 < len(s)\<close>, so its panic
  cannot happen (lemma \<open>getShellName_defined\<close>).
\<close>

fun Expand :: "(string \<Rightarrow> string) \<Rightarrow> string \<Rightarrow> string" where
  "Expand mapping [] = []"
| "Expand mapping (c # s) =
     (if c = CHR ''$'' \<and> s \<noteq> [] then
        (case getShellName s of
           None \<Rightarrow> []
         | Some (name, w) \<Rightarrow>
             (if name = [] \<and> w > 0 then []
              else if name = [] then [c]
              else mapping name) @ Expand mapping (drop w s))
      else c # Expand mapping s)"

text \<open>
  \<^verbatim>\<open>os.Getenv\<close> returns the value of the variable, which is empty when the variable is
  not present. The process environment is a map from names to values.
\<close>

definition Getenv :: "(string \<rightharpoonup> string) \<Rightarrow> string \<Rightarrow> string" where
  "Getenv environment key = (case environment key of None \<Rightarrow> [] | Some v \<Rightarrow> v)"

text \<open>\<^verbatim>\<open>func ExpandEnv(s string) string { return Expand(s, Getenv) }\<close>\<close>

definition ExpandEnv :: "(string \<rightharpoonup> string) \<Rightarrow> string \<Rightarrow> string" where
  "ExpandEnv environment s = Expand (Getenv environment) s"

text \<open>
  A character that begins a reference when it follows a dollar sign, and the strings in
  which no dollar sign is followed by such a character.
\<close>

definition starts_ref :: "char \<Rightarrow> bool" where
  "starts_ref d = (d = CHR ''{'' \<or> isShellSpecialVar d \<or> isAlphaNum d)"

fun stable :: "string \<Rightarrow> bool" where
  "stable [] = True"
| "stable [c] = True"
| "stable (c # d # s) = ((c = CHR ''$'' \<longrightarrow> \<not> starts_ref d) \<and> stable (d # s))"

subsection \<open>Time, paths, logging and the outside world\<close>

type_synonym time = int

definition zeroTime :: time where
  "zeroTime = 0"

definition Before :: "time \<Rightarrow> time \<Rightarrow> bool" where
  "Before t u = (t < u)"

type_synonym path = "string list"

text \<open>
  \<^verbatim>\<open>path.Join(dir, name)\<close> for a clean \<open>dir\<close> and a \<open>name\<close> without a slash: empty elements
  are ignored and the result is cleaned, so \<^verbatim>\<open>.\<close> disappears and \<^verbatim>\<open>..\<close> removes the last
  element (the parent of the root is the root).
\<close>

definition path_Join :: "path \<Rightarrow> string \<Rightarrow> path" where
  "path_Join dir name =
     (if name = [] \<or> name = ''.'' then dir
      else if name = ''..'' then butlast dir
      else dir @ [name])"

text \<open>
  \<^verbatim>\<open>path.Split(p)\<close> splits immediately after the final slash into a directory and a file
  name; the file name of the root is empty.
\<close>

definition path_Split :: "path \<Rightarrow> path \<times> string" where
  "path_Split p = (if p = [] then ([], []) else (butlast p, last p))"

datatype level = DebugLevel | InfoLevel | WarnLevel | ErrorLevel | FatalLevel

datatype arg = Str string | Pth path | Tm time | Num nat

text \<open>A call of the logger: its level, its format string and its arguments.\<close>

datatype log_entry = Log level string "arg list"

text \<open>The two calls the coordinator makes to its collaborators.\<close>

datatype call = CallPipeline path path | CallNotifier string

text \<open>
  What the program has done to the outside: the files it has written (by path), its log
  calls, the HTTP POST requests it has issued (by URL), and two ghost fields that record
  the arguments of the calls of \<^verbatim>\<open>processFile\<close> and the calls made by the loop of \<^verbatim>\<open>main\<close>.
\<close>

record world =
  target :: "path \<rightharpoonup> string"
  logs :: "log_entry list"
  posts :: "string list"
  processed :: "path list"
  calls :: "call list"

definition logf :: "level \<Rightarrow> string \<Rightarrow> arg list \<Rightarrow> world \<Rightarrow> world" where
  "logf l fmt args w = w\<lparr>logs := logs w @ [Log l fmt args]\<rparr>"

text \<open>
  What is found at a path under the watched directory:
  \<^item> \<open>StatErr e\<close>: \<^verbatim>\<open>os.Stat\<close> fails with error \<open>e\<close>;
  \<^item> \<open>File data err\<close>: not a directory; \<^verbatim>\<open>ioutil.ReadFile\<close> returns the bytes \<open>data\<close> and the
    error \<open>err\<close> (on an error the bytes are those read before it, often none);
  \<^item> \<open>Dir err files\<close>: a directory with the entries \<open>files\<close> in the order of
    \<^verbatim>\<open>ioutil.ReadDir\<close> (sorted by name); \<open>err\<close> is the error of \<^verbatim>\<open>ioutil.ReadDir\<close>, if any.
\<close>

datatype node =
    StatErr string
  | File string "string option"
  | Dir "string option" "(string \<times> node) list"

text \<open>
  How \<^verbatim>\<open>ioutil.WriteFile\<close> can fail: \<open>OpenFails e\<close>, the file cannot be opened and nothing
  happens to it; \<open>WriteFails n e\<close>, the file is opened, which creates or truncates it, and
  the write or the close then fails after \<open>n\<close> bytes have been written (a full disk).
\<close>

datatype write_failure = OpenFails string | WriteFails nat string

text \<open>
  The conditions outside the program during one iteration of the loop of \<^verbatim>\<open>main\<close>: the
  environment variables, the failure of \<^verbatim>\<open>ioutil.WriteFile\<close> for a path (if any), the tree
  at the watched path, the result of \<^verbatim>\<open>http.Post\<close> (an error or the status code of the
  response), the clock when the \<^verbatim>\<open>select\<close> returns and the value of \<^verbatim>\<open>time.Now()\<close> after
  the pass. The target directory is assumed to lie outside the watched tree. These are the
  conditions of an iteration whose calls all return; a read or a write that never returns
  is in \<open>processConfigChanges_fs\<close> below.
\<close>

record env =
  environ :: "string \<rightharpoonup> string"
  write_err :: "path \<Rightarrow> write_failure option"
  src_tree :: node
  post_result :: "string + nat"
  wake_time :: time
  done_time :: time

text \<open>The command-line flags.\<close>

record config =
  watchedPath :: path
  expandVars :: bool
  copyFiles :: bool
  targetPath :: path
  prometheusUrl :: string
  processDelayTime :: int
  debugLogs :: bool

subsection \<open>The reprocessing pipeline\<close>

text \<open>
  \<^verbatim>\<open>ioutil.WriteFile(targetFile, data, 0644)\<close> (Go standard library):
  \<^verbatim>\<open>
  f, err := os.OpenFile(filename, os.O_WRONLY|os.O_CREATE|os.O_TRUNC, perm)
  if err != nil {
      return err
  }
  n, err := f.Write(data)
  if err == nil && n < len(data) {
      err = io.ErrShortWrite
  }
  if err1 := f.Close(); err == nil {
      err = err1
  }
  return err
  \<close>
  On success the file holds \<open>data\<close>. When the file cannot be opened it stays as it was.
  When the write fails after the file has been opened, the file holds the bytes written
  before the failure, and none of its former content. The error is the return value.
\<close>

definition WriteFile :: "env \<Rightarrow> path \<Rightarrow> string \<Rightarrow> world \<Rightarrow> string option \<times> world" where
  "WriteFile E p data w =
     (case write_err E p of
        None \<Rightarrow> (None, w\<lparr>target := (target w)(p \<mapsto> data)\<rparr>)
      | Some (OpenFails e) \<Rightarrow> (Some e, w)
      | Some (WriteFails n e) \<Rightarrow> (Some e, w\<lparr>target := (target w)(p \<mapsto> take n data)\<rparr>))"

text \<open>
  \<^verbatim>\<open>
  func processFile(filePath string, destFolder string) {
      contents, err := ioutil.ReadFile(filePath)
      if err != nil {
          log.Errorf("Error reading %v: %v", filePath, err)
      }
      updatedContent := os.ExpandEnv(string(contents))
      _, fileName := path.Split(filePath)
      targetFile := path.Join(destFolder, fileName)
      log.Debugf("writing updated content to %v", targetFile)
      ioutil.WriteFile(targetFile, []byte(updatedContent), 0644)
  }
  \<close>
  The result of \<^verbatim>\<open>ioutil.ReadFile\<close> is the pair \<open>(contents, err)\<close> given as argument: the
  read has returned. (A read that never returns is in \<open>processConfigChanges_fs\<close> below.)
  There is no \<^verbatim>\<open>return\<close> after the error is logged, and the result of
  \<^verbatim>\<open>ioutil.WriteFile\<close> is dropped.
\<close>

definition processFile :: "env \<Rightarrow> path \<Rightarrow> path \<Rightarrow> string \<Rightarrow> string option \<Rightarrow> world \<Rightarrow> world" where
  "processFile E filePath destFolder contents err w =
     (let w0 = w\<lparr>processed := processed w @ [filePath]\<rparr>;
          w1 = (case err of
                  Some e \<Rightarrow> logf ErrorLevel ''Error reading %v: %v'' [Pth filePath, Str e] w0
                | None \<Rightarrow> w0);
          updatedContent = ExpandEnv (environ E) contents;
          fileName = snd (path_Split filePath);
          targetFile = path_Join destFolder fileName;
          w2 = logf DebugLevel ''writing updated content to %v'' [Pth targetFile] w1
      in snd (WriteFile E targetFile updatedContent w2))"

text \<open>
  \<^verbatim>\<open>
  func processConfigChanges(srcPath string, dstPath string) {
      log.Debugf("Processing changes for %v", srcPath)
      stat, err := os.Stat(srcPath)
      if err != nil {
          log.Errorf("Error processing changes in %v: %v", srcPath, err)
          return
      }
      if stat.IsDir() {
          files, err := ioutil.ReadDir(srcPath)
          if err != nil {
              log.Errorf("Failed to list files in %v: %v", srcPath, err)
              return
          }
          for _, fileName := range files {
              processConfigChanges(path.Join(srcPath, fileName.Name()), dstPath)
          }
      } else {
          processFile(srcPath, dstPath)
      }
  }
  \<close>
  The node found at \<open>srcPath\<close> is an argument; \<open>processEntries\<close> is the \<^verbatim>\<open>for\<close> loop.
\<close>

fun processConfigChanges :: "env \<Rightarrow> path \<Rightarrow> path \<Rightarrow> node \<Rightarrow> world \<Rightarrow> world"
  and processEntries :: "env \<Rightarrow> path \<Rightarrow> path \<Rightarrow> (string \<times> node) list \<Rightarrow> world \<Rightarrow> world"
where
  "processConfigChanges E srcPath dstPath (StatErr e) w =
     logf ErrorLevel ''Error processing changes in %v: %v'' [Pth srcPath, Str e]
       (logf DebugLevel ''Processing changes for %v'' [Pth srcPath] w)"
| "processConfigChanges E srcPath dstPath (Dir err files) w =
     (let w1 = logf DebugLevel ''Processing changes for %v'' [Pth srcPath] w
      in case err of
           Some e \<Rightarrow> logf ErrorLevel ''Failed to list files in %v: %v'' [Pth srcPath, Str e] w1
         | None \<Rightarrow> processEntries E srcPath dstPath files w1)"
| "processConfigChanges E srcPath dstPath (File contents err) w =
     processFile E srcPath dstPath contents err
       (logf DebugLevel ''Processing changes for %v'' [Pth srcPath] w)"
| "processEntries E srcPath dstPath [] w = w"
| "processEntries E srcPath dstPath (f # files) w =
     processEntries E srcPath dstPath files
       (processConfigChanges E (path_Join srcPath (fst f)) dstPath (snd f) w)"

text \<open>
  The files of a tree in the order of the walk, each with its path and with the result of
  reading it; entries of a directory that cannot be listed are not reached.
\<close>

fun walk :: "path \<Rightarrow> node \<Rightarrow> (path \<times> string \<times> string option) list"
  and walkEntries :: "path \<Rightarrow> (string \<times> node) list \<Rightarrow> (path \<times> string \<times> string option) list"
where
  "walk p (StatErr e) = []"
| "walk p (Dir err files) = (case err of Some e \<Rightarrow> [] | None \<Rightarrow> walkEntries p files)"
| "walk p (File contents err) = [(p, contents, err)]"
| "walkEntries p [] = []"
| "walkEntries p (f # files) = walk (path_Join p (fst f)) (snd f) @ walkEntries p files"

text \<open>The node at a relative path below a node, by the names of the entries.\<close>

fun lookup :: "node \<Rightarrow> path \<Rightarrow> node option" where
  "lookup n [] = Some n"
| "lookup (Dir err files) (x # xs) =
     (case map_of files x of None \<Rightarrow> None | Some c \<Rightarrow> lookup c xs)"
| "lookup (StatErr e) (x # xs) = None"
| "lookup (File contents err) (x # xs) = None"

definition is_file :: "node option \<Rightarrow> bool" where
  "is_file r = (case r of Some (File contents err) \<Rightarrow> True | _ \<Rightarrow> False)"

text \<open>
  A name of a directory entry is not empty, is neither \<^verbatim>\<open>.\<close> nor \<^verbatim>\<open>..\<close> and has no slash;
  the names of the entries of one directory are distinct.
\<close>

definition valid_name :: "string \<Rightarrow> bool" where
  "valid_name n = (n \<noteq> [] \<and> n \<noteq> ''.'' \<and> n \<noteq> ''..'' \<and> CHR ''/'' \<notin> set n)"

fun wf_tree :: "node \<Rightarrow> bool" and wf_entries :: "(string \<times> node) list \<Rightarrow> bool" where
  "wf_tree (StatErr e) = True"
| "wf_tree (File contents err) = True"
| "wf_tree (Dir err files) = (distinct (map fst files) \<and> wf_entries files)"
| "wf_entries [] = True"
| "wf_entries (f # files) = (valid_name (fst f) \<and> wf_tree (snd f) \<and> wf_entries files)"

text \<open>No \<^verbatim>\<open>os.Stat\<close> and no \<^verbatim>\<open>ioutil.ReadDir\<close> fails anywhere in the tree.\<close>

fun listable :: "node \<Rightarrow> bool" and listable_entries :: "(string \<times> node) list \<Rightarrow> bool" where
  "listable (StatErr e) = False"
| "listable (File contents err) = True"
| "listable (Dir err files) = (err = None \<and> listable_entries files)"
| "listable_entries [] = True"
| "listable_entries (f # files) = (listable (snd f) \<and> listable_entries files)"

text \<open>
  A \<open>node\<close> holds only files on which \<^verbatim>\<open>ioutil.ReadFile\<close> returns, and \<^verbatim>\<open>WriteFile\<close> above
  always returns. What can be found at a path also includes an entry on which the read
  never returns, \<open>FsFifo\<close>: a named pipe that no process writes to (or another special
  file that never ends). The other constructors are those of \<open>node\<close>.
\<close>

datatype fs_node =
    FsStatErr string
  | FsFile string "string option"
  | FsFifo
  | FsDir "string option" "(string \<times> fs_node) list"

text \<open>
  The walk on such a tree either returns, or stays for ever in a call of \<^verbatim>\<open>processFile\<close>; in
  both cases with what it has done so far. \<open>processConfigChanges_fs\<close> is
  \<^verbatim>\<open>processConfigChanges\<close> again, the same code on this tree, with the two calls that may
  not return:
  \<^item> on a \<open>FsFifo\<close>, \<^verbatim>\<open>processFile\<close> does not get past its first statement, the read;
  \<^item> when the target of a file is itself a named pipe that no process reads (\<open>blocks\<close> says
    of which paths in the target directory this is so), \<^verbatim>\<open>processFile\<close> does not get past
    the open in \<^verbatim>\<open>ioutil.WriteFile\<close>: it has logged and has written nothing.
  The \<^verbatim>\<open>for\<close> loop goes to the next entry only when the call for the entry before has
  returned.
\<close>

datatype walk_result = Returned world | Stuck world

fun processConfigChanges_fs ::
    "env \<Rightarrow> (path \<Rightarrow> bool) \<Rightarrow> path \<Rightarrow> path \<Rightarrow> fs_node \<Rightarrow> world \<Rightarrow> walk_result"
  and processEntries_fs ::
    "env \<Rightarrow> (path \<Rightarrow> bool) \<Rightarrow> path \<Rightarrow> path \<Rightarrow> (string \<times> fs_node) list \<Rightarrow> world \<Rightarrow> walk_result"
where
  "processConfigChanges_fs E blocks srcPath dstPath (FsStatErr e) w =
     Returned (logf ErrorLevel ''Error processing changes in %v: %v'' [Pth srcPath, Str e]
       (logf DebugLevel ''Processing changes for %v'' [Pth srcPath] w))"
| "processConfigChanges_fs E blocks srcPath dstPath (FsDir err files) w =
     (let w1 = logf DebugLevel ''Processing changes for %v'' [Pth srcPath] w
      in case err of
           Some e \<Rightarrow>
             Returned (logf ErrorLevel ''Failed to list files in %v: %v'' [Pth srcPath, Str e] w1)
         | None \<Rightarrow> processEntries_fs E blocks srcPath dstPath files w1)"
| "processConfigChanges_fs E blocks srcPath dstPath (FsFile contents err) w =
     (let w1 = logf DebugLevel ''Processing changes for %v'' [Pth srcPath] w;
          w2 = processFile E srcPath dstPath contents err w1
      in if blocks (path_Join dstPath (snd (path_Split srcPath)))
         then Stuck (w2\<lparr>target := target w1\<rparr>)
         else Returned w2)"
| "processConfigChanges_fs E blocks srcPath dstPath FsFifo w =
     (let w1 = logf DebugLevel ''Processing changes for %v'' [Pth srcPath] w
      in Stuck (w1\<lparr>processed := processed w1 @ [srcPath]\<rparr>))"
| "processEntries_fs E blocks srcPath dstPath [] w = Returned w"
| "processEntries_fs E blocks srcPath dstPath (f # files) w =
     (case processConfigChanges_fs E blocks (path_Join srcPath (fst f)) dstPath (snd f) w of
        Stuck w' \<Rightarrow> Stuck w'
      | Returned w' \<Rightarrow> processEntries_fs E blocks srcPath dstPath files w')"

text \<open>
  A tree whose reads all return, as a tree of this type.
\<close>

fun of_node :: "node \<Rightarrow> fs_node" and of_entries :: "(string \<times> node) list \<Rightarrow> (string \<times> fs_node) list"
where
  "of_node (StatErr e) = FsStatErr e"
| "of_node (File contents err) = FsFile contents err"
| "of_node (Dir err files) = FsDir err (of_entries files)"
| "of_entries [] = []"
| "of_entries (f # files) = (fst f, of_node (snd f)) # of_entries files"

text \<open>
  The file that \<^verbatim>\<open>processFile\<close> writes for a source file, what \<^verbatim>\<open>ioutil.WriteFile\<close> does
  to the files of the target directory, and the effect of the walk on them: the writes
  of the files in the order of the walk.
\<close>

definition target_file :: "path \<Rightarrow> path \<Rightarrow> path" where
  "target_file destFolder filePath = path_Join destFolder (snd (path_Split filePath))"

definition written :: "env \<Rightarrow> path \<Rightarrow> string \<Rightarrow> (path \<rightharpoonup> string) \<Rightarrow> (path \<rightharpoonup> string)" where
  "written E p data tg =
     (case write_err E p of
        None \<Rightarrow> tg(p \<mapsto> data)
      | Some (OpenFails e) \<Rightarrow> tg
      | Some (WriteFails n e) \<Rightarrow> tg(p \<mapsto> take n data))"

fun write_all :: "env \<Rightarrow> path \<Rightarrow> (path \<times> string \<times> string option) list \<Rightarrow>
    (path \<rightharpoonup> string) \<Rightarrow> (path \<rightharpoonup> string)" where
  "write_all E dst [] tg = tg"
| "write_all E dst (f # fs) tg =
     write_all E dst fs
       (written E (target_file dst (fst f)) (ExpandEnv (environ E) (fst (snd f))) tg)"

subsection \<open>The notifier\<close>

text \<open>
  \<^verbatim>\<open>
  func notifyPrometheus(url string) {
      log.Debug("Posting reload command to Prometheus")
      resp, err := http.Post(url, "plain/text", nil)
      if err != nil {
          log.Errorf("Error posting reload command to Prometheues: %v", err)
          return
      }
      defer resp.Body.Close()
      log.Debugf("Status code %v", resp.StatusCode)
  }
  \<close>
\<close>

definition notifyPrometheus :: "env \<Rightarrow> string \<Rightarrow> world \<Rightarrow> world" where
  "notifyPrometheus E url w =
     (let w1 = logf DebugLevel ''Posting reload command to Prometheus'' [] w;
          w2 = w1\<lparr>posts := posts w1 @ [url]\<rparr>
      in case post_result E of
           Inl err \<Rightarrow>
             logf ErrorLevel ''Error posting reload command to Prometheues: %v'' [Str err] w2
         | Inr code \<Rightarrow> logf DebugLevel ''Status code %v'' [Num code] w2)"

subsection \<open>Timers and channels of the Go runtime\<close>

text \<open>
  A timer is armed with the instant at which it fires, or it is not armed.
  \<^verbatim>\<open>time.NewTimer(d)\<close> arms it for \<open>d\<close> after the clock; \<^verbatim>\<open>Reset(d)\<close> arms it again, for
  \<open>d\<close> after the clock, and discards a pending countdown; a value can be received from its
  channel once the clock has reached the instant, and the timer is not armed after that.

  This is the timer of Go 1.23 and later, where nothing of the former countdown can be
  received after \<^verbatim>\<open>Reset\<close>. With an older Go, a firing that is already in the channel when
  \<^verbatim>\<open>Reset\<close> is called stays there, and the timer case can be taken once before the new
  instant. Such a case runs the same body as any other firing; the model has no execution
  with it.
\<close>

type_synonym timer = "time option"

definition NewTimer :: "time \<Rightarrow> int \<Rightarrow> timer" where
  "NewTimer clock d = Some (clock + d)"

definition Reset :: "time \<Rightarrow> int \<Rightarrow> timer \<Rightarrow> timer" where
  "Reset clock d tm = Some (clock + d)"

definition fires :: "time \<Rightarrow> timer \<Rightarrow> bool" where
  "fires clock tm = (case tm of None \<Rightarrow> False | Some at \<Rightarrow> at \<le> clock)"

text \<open>
  A channel has a capacity and the values it buffers. \<^verbatim>\<open>make(chan T)\<close> has capacity 0.
  A send hands the value to a receiver that is waiting, or else puts it into the buffer if
  there is room, or else blocks the sender.
\<close>

record 'a chan =
  capacity :: nat
  buffer :: "'a list"

definition make_chan :: "nat \<Rightarrow> 'a chan" where
  "make_chan n = \<lparr>capacity = n, buffer = []\<rparr>"

datatype 'a sent = Handoff 'a | Buffered "'a chan" | Blocked

definition chan_send :: "'a chan \<Rightarrow> 'a \<Rightarrow> bool \<Rightarrow> 'a sent" where
  "chan_send ch v receiver_waiting =
     (if receiver_waiting \<and> buffer ch = [] then Handoff v
      else if length (buffer ch) < capacity ch then Buffered (ch\<lparr>buffer := buffer ch @ [v]\<rparr>)
      else Blocked)"

subsection \<open>The listener\<close>

text \<open>
  The conditions at startup: the error of \<^verbatim>\<open>fsnotify.NewWatcher\<close>, the error of
  \<^verbatim>\<open>watcher.Add\<close> (told apart by \<^verbatim>\<open>os.IsNotExist\<close>) and the clock.
\<close>

datatype add_error = NotExist string | OtherError string

record startup_env =
  newWatcher_err :: "string option"
  add_err :: "add_error option"
  start_time :: time

text \<open>\<^verbatim>\<open>log.Fatalf\<close> logs and then exits the process with status 1.\<close>

datatype 'a started = Fatal world | Started 'a world

text \<open>
  \<^verbatim>\<open>
  func startWatchingPath(path string) (chan time.Time, error) {
      log.Debugf("Creating watcher for path %v", path)
      changeTime := make(chan time.Time)
      watcher, err := fsnotify.NewWatcher()
      if err != nil {
          log.Fatalf("Error creating file watcher: %v", err)
          return nil, err
      }
      err = watcher.Add(path)
      if os.IsNotExist(err) {
          log.Infof("%v no longer exists", path)
      } else if err != nil {
          log.Warnf("Failed to watch %v because of error: %v", path, err)
      }
      go listenForChanges(watcher, changeTime)
      return changeTime, nil
  }
  \<close>
\<close>

definition startWatchingPath :: "startup_env \<Rightarrow> path \<Rightarrow> world \<Rightarrow> (time chan) started" where
  "startWatchingPath S p w =
     (let w1 = logf DebugLevel ''Creating watcher for path %v'' [Pth p] w;
          changeTime = make_chan 0
      in case newWatcher_err S of
           Some e \<Rightarrow> Fatal (logf FatalLevel ''Error creating file watcher: %v'' [Str e] w1)
         | None \<Rightarrow>
             Started changeTime
               (case add_err S of
                  None \<Rightarrow> w1
                | Some (NotExist e) \<Rightarrow> logf InfoLevel ''%v no longer exists'' [Pth p] w1
                | Some (OtherError e) \<Rightarrow>
                    logf WarnLevel ''Failed to watch %v because of error: %v'' [Pth p, Str e] w1))"

text \<open>
  What the watcher delivers to the listener: an error, or an event with the name of a
  path; the event comes with the result of \<^verbatim>\<open>os.Stat\<close> on that name at that moment (an
  error or the modification time). What the listener does: log calls and sends on the
  channel.
  \<^verbatim>\<open>
  for {
      select {
      case err := <-watcher.Errors:
          log.Errorf("Error from watcher: %v", err)
      case event := <-watcher.Events:
          log.Debugf("Received an event for %v", event.Name)
          stat, err := os.Stat(event.Name)
          if err != nil {
              log.Errorf("Could not get modified time for %v: %v", event.Name, err)
              continue
          }
          log.Debugf("Modified time of %v is %v", event.Name, stat.ModTime())
          changeTime <- stat.ModTime()
      }
  }
  \<close>
  The loop never ends; the function below is the loop on what the watcher has delivered
  so far.
\<close>

datatype watcher_input = WatcherError string | WatcherEvent string "string + time"

datatype action = LogCall log_entry | Send time

fun listenForChanges :: "watcher_input list \<Rightarrow> action list" where
  "listenForChanges [] = []"
| "listenForChanges (WatcherError err # rest) =
     LogCall (Log ErrorLevel ''Error from watcher: %v'' [Str err]) # listenForChanges rest"
| "listenForChanges (WatcherEvent name st # rest) =
     LogCall (Log DebugLevel ''Received an event for %v'' [Str name]) #
     (case st of
        Inl err \<Rightarrow>
          LogCall (Log ErrorLevel ''Could not get modified time for %v: %v'' [Str name, Str err]) #
          listenForChanges rest
      | Inr modTime \<Rightarrow>
          LogCall (Log DebugLevel ''Modified time of %v is %v'' [Str name, Tm modTime]) #
          Send modTime # listenForChanges rest)"

fun sends :: "action list \<Rightarrow> time list" where
  "sends [] = []"
| "sends (Send t # acts) = t # sends acts"
| "sends (LogCall e # acts) = sends acts"

fun logged :: "action list \<Rightarrow> log_entry list" where
  "logged [] = []"
| "logged (Send t # acts) = logged acts"
| "logged (LogCall e # acts) = e # logged acts"

subsection \<open>The coordinator: the loop of \<^verbatim>\<open>main\<close>\<close>

record coordinator =
  lastConfigProcess :: time
  lastConfigChange :: time
  delayTimer :: timer
  fileChangeTime :: "time chan"
  outside :: world

datatype outcome = Exited int world | Running coordinator

text \<open>
  \<^verbatim>\<open>main\<close> up to the loop:
  \<^verbatim>\<open>
  log.Info("Prometheus Configuration Watcher")
  log.Info("Github: https://github.com/khaines/prom-config-watcher")
  lastConfigProcess := time.Time{}
  // initializing config change to now will trigger an initial run to process the config files
  lastConfigChange := time.Now()
  delayTimer := time.NewTimer(0)
  fileChangeTime, err := startWatchingPath(*watchedPath)
  if err != nil { log.Fatalf(...); os.Exit(1); return }
  \<close>
\<close>

definition main_start :: "config \<Rightarrow> startup_env \<Rightarrow> world \<Rightarrow> outcome" where
  "main_start cfg S w =
     (let w1 = logf InfoLevel ''Prometheus Configuration Watcher'' [] w;
          w2 = logf InfoLevel ''Github: https://github.com/khaines/prom-config-watcher'' [] w1
      in case startWatchingPath S (watchedPath cfg) w2 of
           Fatal w3 \<Rightarrow> Exited 1 w3
         | Started ch w3 \<Rightarrow>
             Running \<lparr>lastConfigProcess = zeroTime,
                      lastConfigChange = start_time S,
                      delayTimer = NewTimer (start_time S) 0,
                      fileChangeTime = ch,
                      outside = w3\<rparr>)"

text \<open>
  The body of the timer case:
  \<^verbatim>\<open>
  if lastConfigProcess.Before(lastConfigChange) {
      processConfigChanges(*watchedPath, *targetPath)
      notifyPrometheus(*prometheusUrl)
      lastConfigProcess = time.Now()
  }
  \<close>
\<close>

definition onTimer :: "config \<Rightarrow> env \<Rightarrow> coordinator \<Rightarrow> coordinator" where
  "onTimer cfg E s =
     (if Before (lastConfigProcess s) (lastConfigChange s) then
        (let w = outside s;
             w1 = processConfigChanges E (watchedPath cfg) (targetPath cfg) (src_tree E)
                    (w\<lparr>calls := calls w @ [CallPipeline (watchedPath cfg) (targetPath cfg)]\<rparr>);
             w2 = notifyPrometheus E (prometheusUrl cfg)
                    (w1\<lparr>calls := calls w1 @ [CallNotifier (prometheusUrl cfg)]\<rparr>)
         in s\<lparr>outside := w2, lastConfigProcess := done_time E\<rparr>)
      else s)"

text \<open>
  One iteration of the loop, for the case that the \<^verbatim>\<open>select\<close> takes:
  \<^verbatim>\<open>
  select {
  case <-sigs:
      log.Infof("Received SIGINT or SIGTERM. Shutting down")
      os.Exit(0)
  case lastConfigChange = <-fileChangeTime:
      // reset the delay timer in case other changes are triggered rapidly
      delayTimer.Reset(*processDelayTime)
  case <-delayTimer.C:
      (the body above)
  }
  \<close>
  The timer case can only be taken when the timer has fired: otherwise the result is
  \<open>None\<close>, and no execution takes this step.
\<close>

datatype event = Signal | FileChange time | TimerFire

definition iteration :: "config \<Rightarrow> env \<Rightarrow> event \<Rightarrow> coordinator \<Rightarrow> outcome option" where
  "iteration cfg E ev s =
     (case ev of
        Signal \<Rightarrow>
          Some (Exited 0 (logf InfoLevel ''Received SIGINT or SIGTERM. Shutting down'' [] (outside s)))
      | FileChange t \<Rightarrow>
          Some (Running (s\<lparr>lastConfigChange := t,
                           delayTimer := Reset (wake_time E) (processDelayTime cfg) (delayTimer s)\<rparr>))
      | TimerFire \<Rightarrow>
          if fires (wake_time E) (delayTimer s)
          then Some (Running (onTimer cfg E (s\<lparr>delayTimer := None\<rparr>)))
          else None)"



fun is_pipeline :: "call \<Rightarrow> bool" where
  "is_pipeline (CallPipeline src dst) = True"
| "is_pipeline (CallNotifier url) = False"

definition passes :: "world \<Rightarrow> nat" where
  "passes w = length (filter is_pipeline (calls w))"


subsection \<open>The listener and the coordinator together\<close>

text \<open>
  \<^verbatim>\<open>startWatchingPath\<close> starts the listener with \<^verbatim>\<open>go listenForChanges(watcher, changeTime)\<close>;
  from then on the two tasks run side by side and meet at the channel. The state of both:
  the variables of the coordinator; the conditions of the pass when the coordinator is
  inside the body of the timer case, and \<open>None\<close> when it waits in its \<^verbatim>\<open>select\<close>; the value
  that the listener is sending when it is blocked in \<^verbatim>\<open>changeTime <- stat.ModTime()\<close>, and
  \<open>None\<close> when it waits for the watcher.
\<close>

record system =
  coord :: coordinator
  pass :: "env option"
  sending :: "time option"

text \<open>
  The steps of the two tasks:
  \<^item> \<open>Watch x\<close>: the listener, waiting for the watcher, takes \<open>x\<close> and runs one round of
    its loop; when the round ends in a send, the listener is blocked in it.
  \<^item> \<open>Buffer\<close>: the send of the blocked listener goes into the buffer of the channel.
  \<^item> \<open>Select E ev\<close>: the coordinator, waiting in its \<^verbatim>\<open>select\<close>, takes the case \<open>ev\<close>.
    The receive case takes the first buffered value, or the value of the blocked
    listener when nothing is buffered. The timer case with a change to process enters
    the body of the case: a pass begins.
  \<^item> \<open>Finish\<close>: the body of the timer case returns: the pass is over. The effects of the
    pass on the outside world are recorded at this step, so what the listener logs during
    a pass comes before the log lines of the pass.
  A step that cannot happen in a state is \<open>None\<close>.
\<close>

datatype step = Watch watcher_input | Buffer | Select env event | Finish

datatype progress = Ended int world | Goes system

definition receive :: "system \<Rightarrow> (time \<times> system) option" where
  "receive s =
     (case buffer (fileChangeTime (coord s)) of
        v # rest \<Rightarrow>
          Some (v, s\<lparr>coord := (coord s)\<lparr>fileChangeTime := (fileChangeTime (coord s))\<lparr>buffer := rest\<rparr>\<rparr>\<rparr>)
      | [] \<Rightarrow>
          (case sending s of
             None \<Rightarrow> None
           | Some t \<Rightarrow>
               (case chan_send (fileChangeTime (coord s)) t True of
                  Handoff v \<Rightarrow> Some (v, s\<lparr>sending := None\<rparr>)
                | Buffered ch \<Rightarrow> None
                | Blocked \<Rightarrow> None)))"

definition continue :: "system \<Rightarrow> outcome option \<Rightarrow> progress option" where
  "continue s r =
     (case r of
        None \<Rightarrow> None
      | Some (Exited code w) \<Rightarrow> Some (Ended code w)
      | Some (Running c) \<Rightarrow> Some (Goes (s\<lparr>coord := c\<rparr>)))"

definition system_step :: "config \<Rightarrow> step \<Rightarrow> system \<Rightarrow> progress option" where
  "system_step cfg st s =
     (case st of
        Watch x \<Rightarrow>
          (case sending s of
             Some t \<Rightarrow> None
           | None \<Rightarrow>
               (let acts = listenForChanges [x]; c = coord s; w = outside c
                in Some (Goes (s\<lparr>coord := c\<lparr>outside := w\<lparr>logs := logs w @ logged acts\<rparr>\<rparr>,
                               sending := (case sends acts of [] \<Rightarrow> None | t # ts \<Rightarrow> Some t)\<rparr>))))
      | Buffer \<Rightarrow>
          (case sending s of
             None \<Rightarrow> None
           | Some t \<Rightarrow>
               (case chan_send (fileChangeTime (coord s)) t False of
                  Buffered ch \<Rightarrow> Some (Goes (s\<lparr>coord := (coord s)\<lparr>fileChangeTime := ch\<rparr>, sending := None\<rparr>))
                | Handoff v \<Rightarrow> None
                | Blocked \<Rightarrow> None))
      | Select E ev \<Rightarrow>
          (case pass s of
             Some E' \<Rightarrow> None
           | None \<Rightarrow>
               (case ev of
                  Signal \<Rightarrow> continue s (iteration cfg E Signal (coord s))
                | FileChange t \<Rightarrow>
                    (case receive s of
                       None \<Rightarrow> None
                     | Some (v, s') \<Rightarrow>
                         if v = t then continue s' (iteration cfg E (FileChange t) (coord s'))
                         else None)
                | TimerFire \<Rightarrow>
                    if fires (wake_time E) (delayTimer (coord s)) \<and>
                       Before (lastConfigProcess (coord s)) (lastConfigChange (coord s))
                    then Some (Goes (s\<lparr>coord := (coord s)\<lparr>delayTimer := None\<rparr>, pass := Some E\<rparr>))
                    else continue s (iteration cfg E TimerFire (coord s))))
      | Finish \<Rightarrow>
          (case pass s of
             None \<Rightarrow> None
           | Some E \<Rightarrow> Some (Goes (s\<lparr>coord := onTimer cfg E (coord s), pass := None\<rparr>))))"

text \<open>
  A run of the two tasks, and its first state after \<^verbatim>\<open>main\<close> has started the listener.
\<close>

fun system_run :: "config \<Rightarrow> step list \<Rightarrow> system \<Rightarrow> progress option" where
  "system_run cfg [] s = Some (Goes s)"
| "system_run cfg (st # rest) s =
     (case system_step cfg st s of
        None \<Rightarrow> None
      | Some (Ended code w) \<Rightarrow> Some (Ended code w)
      | Some (Goes s') \<Rightarrow> system_run cfg rest s')"

definition system_start :: "config \<Rightarrow> startup_env \<Rightarrow> world \<Rightarrow> progress" where
  "system_start cfg S w =
     (case main_start cfg S w of
        Exited code w' \<Rightarrow> Ended code w'
      | Running c \<Rightarrow> Goes \<lparr>coord = c, pass = None, sending = None\<rparr>)"

definition unbuffered :: "system \<Rightarrow> bool" where
  "unbuffered s = (capacity (fileChangeTime (coord s)) = 0 \<and> buffer (fileChangeTime (coord s)) = [])"

subsection \<open>Example inputs\<close>

text \<open>
  The default flags; a watched tree with two files of the same base name; an environment
  in which everything succeeds and one in which a file cannot be read, a file cannot be
  written and the reload request fails.
\<close>

definition example_config :: config where
  "example_config =
     \<lparr>watchedPath = [''config''], expandVars = True, copyFiles = True,
      targetPath = [''processed-config''], prometheusUrl = ''http://localhost:9090/-/reload'',
      processDelayTime = 5000000000, debugLogs = False\<rparr>"

definition example_world :: world where
  "example_world =
     \<lparr>target = map_of [([''processed-config'', ''a.yml''], ''port: 9090'')],
      logs = [], posts = [], processed = [], calls = []\<rparr>"

definition example_tree :: node where
  "example_tree =
     Dir None [(''a.yml'', File ''port: ${PORT}'' None),
               (''sub'', Dir None [(''a.yml'', File ''port: 1'' None)])]"

definition example_env :: env where
  "example_env =
     \<lparr>environ = map_of [(''PORT'', ''9090'')], write_err = map_of [], src_tree = example_tree,
      post_result = Inr 200, wake_time = 100, done_time = 101\<rparr>"

definition failing_env :: env where
  "failing_env =
     \<lparr>environ = map_of [], write_err = map_of [([''processed-config'', ''b.yml''],
                           WriteFails 0 ''no space left on device'')],
      src_tree = Dir None [(''a.yml'', File [] (Some ''permission denied'')),
                           (''b.yml'', File ''x'' None)],
      post_result = Inl ''connection refused'', wake_time = 100, done_time = 101\<rparr>"

definition example_startup :: startup_env where
  "example_startup = \<lparr>newWatcher_err = None, add_err = None, start_time = 100\<rparr>"

definition example_coordinator :: "time \<Rightarrow> coordinator" where
  "example_coordinator processedAt =
     \<lparr>lastConfigProcess = processedAt, lastConfigChange = 50, delayTimer = Some 100,
      fileChangeTime = make_chan 0, outside = example_world\<rparr>"

text \<open>
  A pass that takes from 100 to 300 and reads \<^verbatim>\<open>rules.yml\<close> before it is changed at 200; the
  event for that change; the conditions when the change is received and when the timer
  fires after it.
\<close>

definition first_pass_env :: env where
  "first_pass_env =
     \<lparr>environ = map_of [], write_err = map_of [],
      src_tree = Dir None [(''rules.yml'', File ''v1'' None)],
      post_result = Inr 200, wake_time = 100, done_time = 300\<rparr>"

definition receive_env :: env where
  "receive_env =
     \<lparr>environ = map_of [], write_err = map_of [],
      src_tree = Dir None [(''rules.yml'', File ''v2'' None)],
      post_result = Inr 200, wake_time = 300, done_time = 300\<rparr>"

definition second_fire_env :: env where
  "second_fire_env =
     \<lparr>environ = map_of [], write_err = map_of [],
      src_tree = Dir None [(''rules.yml'', File ''v2'' None)],
      post_result = Inr 200, wake_time = 5000000300, done_time = 5000000301\<rparr>"

definition change_event :: watcher_input where
  "change_event = WatcherEvent ''/config/rules.yml'' (Inr 200)"

section \<open>Properties\<close>

subsection \<open>Substitution\<close>

declare scanBrace.simps [simp del] scanAlnum.simps [simp del]

lemma scanBrace_width_pos: "0 < snd (scanBrace s i)"
  by (induction s i rule: scanBrace.induct) (subst scanBrace.simps, simp)

lemma scanAlnum_stop: "\<not> (i < length s \<and> isAlphaNum (s ! i)) \<Longrightarrow> scanAlnum s i = i"
  by (subst scanAlnum.simps) auto

lemma scanAlnum_ge: "i \<le> scanAlnum s i"
proof (induction s i rule: scanAlnum.induct)
  case (1 s i)
  show ?case
  proof (cases "i < length s \<and> isAlphaNum (s ! i)")
    case True
    with 1 have "Suc i \<le> scanAlnum s (Suc i)" by simp
    moreover from True have "scanAlnum s i = scanAlnum s (Suc i)"
      by (subst scanAlnum.simps) simp
    ultimately show ?thesis by simp
  next
    case False
    then show ?thesis by (simp add: scanAlnum_stop)
  qed
qed

lemma scanAlnum_step: "i < length s \<Longrightarrow> isAlphaNum (s ! i) \<Longrightarrow> i < scanAlnum s i"
proof -
  assume a: "i < length s" "isAlphaNum (s ! i)"
  then have "scanAlnum s i = scanAlnum s (Suc i)"
    by (subst scanAlnum.simps) simp
  moreover have "Suc i \<le> scanAlnum s (Suc i)" by (rule scanAlnum_ge)
  ultimately show ?thesis by simp
qed

lemma scanAlnum_le: "i \<le> length s \<Longrightarrow> scanAlnum s i \<le> length s"
proof (induction s i rule: scanAlnum.induct)
  case (1 s i)
  show ?case
  proof (cases "i < length s \<and> isAlphaNum (s ! i)")
    case True
    with 1 show ?thesis by (subst scanAlnum.simps) simp
  next
    case False
    with 1(2) show ?thesis by (simp add: scanAlnum_stop)
  qed
qed

lemma dollar_special: "isShellSpecialVar CHR ''$''"
  by (simp add: isShellSpecialVar_def)

lemma getShellName_noref: "\<not> starts_ref d \<Longrightarrow> getShellName (d # r) = Some ([], 0)"
  by (simp add: getShellName_def starts_ref_def scanAlnum_stop)

lemma getShellName_ref:
  assumes "starts_ref d" and "getShellName (d # r) = Some (n, w)"
  shows "0 < w"
proof (cases "d = CHR ''{''")
  case True
  with assms(2) show ?thesis
    using scanBrace_width_pos [of "d # r" 1]
    by (auto simp: getShellName_def split: if_splits)
next
  case False
  show ?thesis
  proof (cases "isShellSpecialVar d")
    case True
    with False assms(2) show ?thesis by (simp add: getShellName_def)
  next
    case nsp: False
    with False assms(1) have "isAlphaNum d" by (simp add: starts_ref_def)
    then have "0 < scanAlnum (d # r) 0" using scanAlnum_step [of 0 "d # r"] by simp
    with False nsp assms(2) show ?thesis by (auto simp: getShellName_def Let_def)
  qed
qed

lemma getShellName_defined: "s \<noteq> [] \<Longrightarrow> \<exists>n w. getShellName s = Some (n, w)"
  by (cases s) (auto simp: getShellName_def Let_def intro: prod.exhaust)

lemma stable_Cons_plain: "c \<noteq> CHR ''$'' \<Longrightarrow> stable (c # q) = stable q"
  by (cases q) simp_all

lemma stable_append_plain: "CHR ''$'' \<notin> set p \<Longrightarrow> stable (p @ q) = stable q"
  by (induction p) (auto simp: stable_Cons_plain)

lemma Expand_stable_id: "stable t \<Longrightarrow> Expand m t = t"
proof (induction t rule: stable.induct)
  case 1
  then show ?case by simp
next
  case (2 c)
  then show ?case by simp
next
  case (3 c d s)
  then show ?case by (auto simp: getShellName_noref)
qed

lemma Expand_plain_head: "c \<noteq> CHR ''$'' \<Longrightarrow> Expand m (c # s) = c # Expand m s"
  by simp

lemma stable_Expand:
  assumes m: "\<And>n. CHR ''$'' \<notin> set (m n)"
  shows "stable (Expand m s)"
proof (induction "length s" arbitrary: s rule: less_induct)
  case less
  show ?case
  proof (cases s)
    case Nil
    then show ?thesis by simp
  next
    case (Cons c r)
    show ?thesis
    proof (cases "c = CHR ''$'' \<and> r \<noteq> []")
      case False
      have IH: "stable (Expand m r)" using less Cons by simp
      from False Cons have E: "Expand m s = c # Expand m r" by auto
      have "stable (c # Expand m r)"
      proof (cases "c = CHR ''$''")
        case True
        with False have "r = []" by simp
        then show ?thesis by simp
      next
        case False
        then show ?thesis using IH by (simp add: stable_Cons_plain)
      qed
      with E show ?thesis by simp
    next
      case True
      then obtain n w where g: "getShellName r = Some (n, w)"
        using getShellName_defined by blast
      have IH: "stable (Expand m (drop w r))" using less Cons by simp
      define p where "p = (if n = [] \<and> w > 0 then [] else if n = [] then [c] else m n)"
      have E: "Expand m s = p @ Expand m (drop w r)"
        using Cons True g by (simp add: p_def)
      show ?thesis
      proof (cases "n = [] \<and> w = 0")
        case nw: True
        from True obtain d r' where r: "r = d # r'" by (cases r) auto
        have nr: "\<not> starts_ref d"
        proof
          assume "starts_ref d"
          then have "0 < w" using g r getShellName_ref by blast
          with nw show False by simp
        qed
        then have "d \<noteq> CHR ''$''" using dollar_special by (auto simp: starts_ref_def)
        then have Er: "Expand m r = d # Expand m r'" using r by simp
        from IH nw Er have "stable (d # Expand m r')" by simp
        with nr have "stable (c # d # Expand m r')" by simp
        moreover from nw have "p = [c]" by (simp add: p_def)
        ultimately show ?thesis using E nw Er by simp
      next
        case False
        then have "CHR ''$'' \<notin> set p"
          using m by (auto simp: p_def)
        then have "stable (p @ Expand m (drop w r))" using IH by (simp add: stable_append_plain)
        with E show ?thesis by simp
      qed
    qed
  qed
qed

lemma Expand_prefix: "CHR ''$'' \<notin> set pre \<Longrightarrow> Expand m (pre @ s) = pre @ Expand m s"
  by (induction pre) auto

lemma scanBrace_closing:
  assumes "n \<noteq> []" and "CHR ''}'' \<notin> set n"
  shows "1 \<le> i \<Longrightarrow> i \<le> length n + 1 \<Longrightarrow>
    scanBrace (CHR ''{'' # n @ CHR ''}'' # rest) i = (n, length n + 2)"
proof (induction "length n + 1 - i" arbitrary: i)
  case 0
  then have i: "i = length n + 1" by simp
  have "(CHR ''{'' # n @ CHR ''}'' # rest) ! i = CHR ''}''"
    by (simp add: i nth_append)
  moreover have "i \<noteq> 1" using assms(1) i by simp
  moreover have "i < length (CHR ''{'' # n @ CHR ''}'' # rest)" by (simp add: i)
  ultimately show ?case
    by (subst scanBrace.simps) (simp add: i)
next
  case (Suc k)
  then have lt: "i - 1 < length n" by simp
  from Suc.prems lt have "(CHR ''{'' # n @ CHR ''}'' # rest) ! i = n ! (i - 1)"
    by (cases i) (simp_all add: nth_append)
  moreover have "n ! (i - 1) \<noteq> CHR ''}''" using assms(2) lt by (metis nth_mem)
  moreover have "i < length (CHR ''{'' # n @ CHR ''}'' # rest)" using lt by simp
  moreover have "scanBrace (CHR ''{'' # n @ CHR ''}'' # rest) (Suc i) = (n, length n + 2)"
    using Suc by (intro Suc.hyps(1)) simp_all
  ultimately show ?case
    by (subst scanBrace.simps) simp
qed

lemma getShellName_braced:
  assumes "n \<noteq> []" and "CHR ''}'' \<notin> set n"
  shows "getShellName (CHR ''{'' # n @ CHR ''}'' # rest) = Some (n, length n + 2)"
proof (cases "length n = 1")
  case True
  then obtain a where n: "n = [a]" by (cases n) auto
  show ?thesis
    using scanBrace_closing [OF assms, of 1 rest] by (simp add: getShellName_def n)
next
  case False
  then have "(CHR ''{'' # n @ CHR ''}'' # rest) ! 2 \<noteq> CHR ''}''"
    using assms by (cases n; cases "tl n") auto
  then show ?thesis
    using scanBrace_closing [OF assms, of 1 rest] by (simp add: getShellName_def)
qed

lemma scanAlnum_name:
  assumes "\<forall>c \<in> set b. isAlphaNum c" and "rest = [] \<or> \<not> isAlphaNum (hd rest)"
  shows "i \<le> length b \<Longrightarrow> scanAlnum (b @ rest) i = length b"
proof (induction "length b - i" arbitrary: i)
  case 0
  then have i: "i = length b" by simp
  have "\<not> (i < length (b @ rest) \<and> isAlphaNum ((b @ rest) ! i))"
    using assms(2) by (cases rest) (auto simp: i nth_append)
  then show ?case by (simp add: scanAlnum_stop i)
next
  case (Suc k)
  then have lt: "i < length b" by simp
  then have "isAlphaNum ((b @ rest) ! i)" using assms(1) by (simp add: nth_append)
  moreover have "scanAlnum (b @ rest) (Suc i) = length b"
    using Suc by (intro Suc.hyps(1)) simp_all
  ultimately show ?case using lt
    by (subst scanAlnum.simps) simp
qed

lemma alnum_not_brace: "isAlphaNum c \<Longrightarrow> c \<noteq> CHR ''{''"
  by (auto simp: isAlphaNum_def)

lemma getShellName_bare:
  assumes "b \<noteq> []" and "\<forall>c \<in> set b. isAlphaNum c" and "\<not> isShellSpecialVar (hd b)"
    and "rest = [] \<or> \<not> isAlphaNum (hd rest)"
  shows "getShellName (b @ rest) = Some (b, length b)"
proof -
  from assms(1) obtain c r where b: "b = c # r" by (cases b) auto
  with assms(2) have "c \<noteq> CHR ''{''" using alnum_not_brace by simp
  moreover have "scanAlnum (b @ rest) 0 = length b"
    using scanAlnum_name [OF assms(2) assms(4), of 0] by simp
  ultimately show ?thesis using assms(3) b
    by (simp add: getShellName_def)
qed

lemma Expand_twice:
  assumes "\<And>n. CHR ''$'' \<notin> set (m n)"
  shows "Expand m (Expand m s) = Expand m s"
  using assms by (intro Expand_stable_id stable_Expand)

lemma Getenv_dollar_free:
  "\<forall>n v. environment n = Some v \<longrightarrow> CHR ''$'' \<notin> set v \<Longrightarrow> CHR ''$'' \<notin> set (Getenv environment n)"
  by (cases "environment n") (simp_all add: Getenv_def)

text \<open>
  C3 (as amended). A reference \<^verbatim>\<open>${NAME}\<close> or \<^verbatim>\<open>$NAME\<close> that follows text without a dollar
  sign is replaced by the value of \<^verbatim>\<open>NAME\<close> in the environment, and by the empty string
  when \<^verbatim>\<open>NAME\<close> is not defined there; the text before it is kept and the rest of the content
  (\<open>tail\<close> after a braced reference, \<open>rest\<close> after a bare one) is expanded in the same way. The substitution is a total function: it returns a string
  for every content and every environment and raises no error. (A braced name is any
  non-empty text without a closing brace; a bare name is made of letters, digits and
  underscores, does not begin with a digit and ends where such characters end.)
\<close>

theorem ExpandEnv_resolves_references:
  assumes "CHR ''$'' \<notin> set pre"
    and "n \<noteq> []" and "CHR ''}'' \<notin> set n"
    and "b \<noteq> []" and "\<forall>c \<in> set b. isAlphaNum c" and "\<not> isShellSpecialVar (hd b)"
    and "rest = [] \<or> \<not> isAlphaNum (hd rest)"
  shows "ExpandEnv environment (pre @ ''${'' @ n @ ''}'' @ tail) =
           pre @ (case environment n of None \<Rightarrow> [] | Some v \<Rightarrow> v) @ ExpandEnv environment tail
       \<and> ExpandEnv environment (pre @ ''$'' @ b @ rest) =
           pre @ (case environment b of None \<Rightarrow> [] | Some v \<Rightarrow> v) @ ExpandEnv environment rest"
proof
  have "Expand (Getenv environment) (CHR ''$'' # CHR ''{'' # n @ CHR ''}'' # tail) =
        Getenv environment n @ Expand (Getenv environment) tail"
    using getShellName_braced [OF assms(2,3), of tail] assms(2) by simp
  then show "ExpandEnv environment (pre @ ''${'' @ n @ ''}'' @ tail) =
      pre @ (case environment n of None \<Rightarrow> [] | Some v \<Rightarrow> v) @ ExpandEnv environment tail"
    using assms(1) by (simp add: ExpandEnv_def Expand_prefix Getenv_def)
next
  have "Expand (Getenv environment) (CHR ''$'' # b @ rest) =
        Getenv environment b @ Expand (Getenv environment) rest"
    using getShellName_bare [OF assms(4,5,6,7)] assms(4) by simp
  then show "ExpandEnv environment (pre @ ''$'' @ b @ rest) =
      pre @ (case environment b of None \<Rightarrow> [] | Some v \<Rightarrow> v) @ ExpandEnv environment rest"
    using assms(1) by (simp add: ExpandEnv_def Expand_prefix Getenv_def)
qed

theorem ExpandEnv_resolves_references_witness:
  "ExpandEnv (map_of [(''PORT'', ''9090'')]) ''listen: ${PORT}!'' = ''listen: 9090!'' \<and>
   ExpandEnv (map_of [(''PORT'', ''9090'')]) ''listen: $HOST!'' = ''listen: !''"
  using ExpandEnv_resolves_references [where pre = "''listen: ''" and n = "''PORT''"
        and b = "''HOST''" and rest = "''!''" and tail = "''!''" and environment = "map_of [(''PORT'', ''9090'')]"]
  by (simp add: isAlphaNum_def isShellSpecialVar_def ExpandEnv_def)

text \<open>
  C3 as the specification states it fails: with no variable defined, the references
  \<^verbatim>\<open>${HOST}\<close> and \<^verbatim>\<open>$PORT\<close> do not stay in the output as literal text, they disappear.
\<close>

theorem ExpandEnv_undefined_not_literal:
  "ExpandEnv (map_of []) ''url: ${HOST}:$PORT/'' = ''url: :/'' \<and>
   ExpandEnv (map_of []) ''url: ${HOST}:$PORT/'' \<noteq> ''url: ${HOST}:$PORT/''"
  by (simp add: ExpandEnv_def getShellName_def isShellSpecialVar_def isAlphaNum_def Getenv_def
      scanBrace.simps scanAlnum.simps)

text \<open>
  C4 (as amended). When no value of the environment contains a dollar sign, substituting
  a second time with the same environment changes nothing:
  \<open>substitute (substitute content) = substitute content\<close>, for every content.
\<close>

theorem ExpandEnv_idempotent_dollar_free:
  assumes "\<forall>n v. environment n = Some v \<longrightarrow> CHR ''$'' \<notin> set v"
  shows "ExpandEnv environment (ExpandEnv environment content) = ExpandEnv environment content"
  unfolding ExpandEnv_def
  by (rule Expand_twice) (rule Getenv_dollar_free [OF assms])

theorem ExpandEnv_idempotent_dollar_free_witness:
  "ExpandEnv (map_of [(''PORT'', ''9090'')]) (ExpandEnv (map_of [(''PORT'', ''9090'')]) ''listen: ${PORT}'')
     = ExpandEnv (map_of [(''PORT'', ''9090'')]) ''listen: ${PORT}''"
proof -
  have h: "\<forall>n v. map_of [(''PORT'', ''9090'')] n = Some v \<longrightarrow> CHR ''$'' \<notin> set v"
    by simp
  show ?thesis
    by (rule ExpandEnv_idempotent_dollar_free [OF h])
qed

text \<open>
  C4 as the specification states it fails: with \<^verbatim>\<open>X=$Y\<close> and \<^verbatim>\<open>Y=z\<close> in the environment,
  the content \<^verbatim>\<open>$X\<close> becomes \<^verbatim>\<open>$Y\<close>, and a second substitution makes it \<^verbatim>\<open>z\<close>.
\<close>

theorem ExpandEnv_twice_differs:
  "ExpandEnv (map_of [(''X'', ''$Y''), (''Y'', ''z'')])
     (ExpandEnv (map_of [(''X'', ''$Y''), (''Y'', ''z'')]) ''$X'')
   \<noteq> ExpandEnv (map_of [(''X'', ''$Y''), (''Y'', ''z'')]) ''$X''"
  by (simp add: ExpandEnv_def getShellName_def isShellSpecialVar_def isAlphaNum_def Getenv_def
      scanBrace.simps scanAlnum.simps)

subsection \<open>The reprocessing pipeline\<close>

lemma logf_fields [simp]:
  "target (logf l fmt args w) = target w"
  "posts (logf l fmt args w) = posts w"
  "processed (logf l fmt args w) = processed w"
  "calls (logf l fmt args w) = calls w"
  "logs (logf l fmt args w) = logs w @ [Log l fmt args]"
  by (simp_all add: logf_def)

lemma WriteFile_fields [simp]:
  "target (snd (WriteFile E p data w)) = written E p data (target w)"
  "logs (snd (WriteFile E p data w)) = logs w"
  "posts (snd (WriteFile E p data w)) = posts w"
  "processed (snd (WriteFile E p data w)) = processed w"
  "calls (snd (WriteFile E p data w)) = calls w"
  by (simp_all add: WriteFile_def written_def split: option.splits write_failure.splits)

lemma processFile_processed [simp]:
  "processed (processFile E p dst d e w) = processed w @ [p]"
  by (simp add: processFile_def Let_def split: option.splits)

lemma processFile_calls [simp]:
  "calls (processFile E p dst d e w) = calls w"
  by (simp add: processFile_def Let_def split: option.splits)

lemma processFile_posts [simp]:
  "posts (processFile E p dst d e w) = posts w"
  by (simp add: processFile_def Let_def split: option.splits)

lemma processFile_target:
  "target (processFile E p dst d e w) =
     written E (target_file dst p) (ExpandEnv (environ E) d) (target w)"
  by (simp add: processFile_def Let_def target_file_def split: option.splits)

lemma walk_processed:
  "processed (processConfigChanges E p dst n w) = processed w @ map fst (walk p n)"
  "processed (processEntries E p dst fs w) = processed w @ map fst (walkEntries p fs)"
  by (induction E p dst n w and E p dst fs w rule: processConfigChanges_processEntries.induct)
     (simp_all add: Let_def split: option.splits)

lemma walk_calls:
  "calls (processConfigChanges E p dst n w) = calls w"
  "calls (processEntries E p dst fs w) = calls w"
  by (induction E p dst n w and E p dst fs w rule: processConfigChanges_processEntries.induct)
     (simp_all add: Let_def split: option.splits)

lemma walk_posts:
  "posts (processConfigChanges E p dst n w) = posts w"
  "posts (processEntries E p dst fs w) = posts w"
  by (induction E p dst n w and E p dst fs w rule: processConfigChanges_processEntries.induct)
     (simp_all add: Let_def split: option.splits)

lemma write_all_append:
  "write_all E dst (xs @ ys) tg = write_all E dst ys (write_all E dst xs tg)"
  by (induction xs arbitrary: tg) simp_all

lemma walk_target:
  "target (processConfigChanges E p dst n w) = write_all E dst (walk p n) (target w)"
  "target (processEntries E p dst fs w) = write_all E dst (walkEntries p fs) (target w)"
  by (induction E p dst n w and E p dst fs w rule: processConfigChanges_processEntries.induct)
     (auto simp: processFile_target write_all_append Let_def split: option.splits)

lemma written_other: "p \<noteq> k \<Longrightarrow> written E p data tg k = tg k"
  by (simp add: written_def split: option.splits write_failure.splits)

lemma written_ok: "write_err E p = None \<Longrightarrow> written E p data tg p = Some data"
  by (simp add: written_def)

lemma write_all_other:
  "\<forall>f \<in> set zs. target_file dst (fst f) \<noteq> k \<Longrightarrow> write_all E dst zs tg k = tg k"
  by (induction zs arbitrary: tg) (simp_all add: written_other)

lemma path_Join_valid: "valid_name x \<Longrightarrow> path_Join p x = p @ [x]"
  by (auto simp: path_Join_def valid_name_def)

lemma walk_prefix:
  "wf_tree t \<Longrightarrow> q \<in> fst ` set (walk p t) \<Longrightarrow> \<exists>rel. q = p @ rel"
  "wf_entries fs \<Longrightarrow> q \<in> fst ` set (walkEntries p fs) \<Longrightarrow>
     \<exists>x rel. x \<in> fst ` set fs \<and> q = p @ x # rel"
proof (induction p t and p fs arbitrary: q and q rule: walk_walkEntries.induct)
  case (1 p e)
  then show ?case by simp
next
  case (2 p err files)
  show ?case
  proof (cases err)
    case None
    with "2.prems" have we: "wf_entries files" and q: "q \<in> fst ` set (walkEntries p files)"
      by simp_all
    from "2.IH" [OF None we q] show ?thesis by blast
  next
    case (Some a)
    with "2.prems" show ?thesis by simp
  qed
next
  case (3 p contents err)
  then show ?case by simp
next
  case (4 p)
  then show ?case by simp
next
  case (5 p f files)
  from "5.prems" have v: "valid_name (fst f)" and wt: "wf_tree (snd f)" and we: "wf_entries files"
    by simp_all
  from "5.prems"(2) consider
      (here) "q \<in> fst ` set (walk (path_Join p (fst f)) (snd f))"
    | (later) "q \<in> fst ` set (walkEntries p files)"
    by auto
  then show ?case
  proof cases
    case here
    with "5.IH"(1) [OF wt] obtain rel where "q = path_Join p (fst f) @ rel" by blast
    then have "q = p @ fst f # rel" using v by (simp add: path_Join_valid)
    then show ?thesis by auto
  next
    case later
    with "5.IH"(2) [OF we] obtain x rel where "x \<in> fst ` set files" "q = p @ x # rel" by blast
    then show ?thesis by auto
  qed
qed

lemma walk_distinct:
  "wf_tree t \<Longrightarrow> distinct (map fst (walk p t))"
  "wf_entries fs \<Longrightarrow> distinct (map fst fs) \<Longrightarrow> distinct (map fst (walkEntries p fs))"
proof (induction p t and p fs rule: walk_walkEntries.induct)
  case (1 p e)
  then show ?case by simp
next
  case (2 p err files)
  then show ?case by (cases err) simp_all
next
  case (3 p contents err)
  then show ?case by simp
next
  case (4 p)
  then show ?case by simp
next
  case (5 p f files)
  from "5.prems" have v: "valid_name (fst f)" and wt: "wf_tree (snd f)" and we: "wf_entries files"
    and nf: "fst f \<notin> fst ` set files" and df: "distinct (map fst files)"
    by simp_all
  have disj: "fst ` set (walk (path_Join p (fst f)) (snd f)) \<inter> fst ` set (walkEntries p files) = {}"
  proof (rule ccontr)
    assume "\<not> ?thesis"
    then obtain q where q1: "q \<in> fst ` set (walk (path_Join p (fst f)) (snd f))"
      and q2: "q \<in> fst ` set (walkEntries p files)" by blast
    from walk_prefix(1) [OF wt q1] obtain rel where "q = path_Join p (fst f) @ rel" by blast
    then have a: "q = p @ fst f # rel" using v by (simp add: path_Join_valid)
    from walk_prefix(2) [OF we q2] obtain x rel' where x: "x \<in> fst ` set files" and b: "q = p @ x # rel'"
      by blast
    from a b have "fst f = x" by simp
    with x nf show False by simp
  qed
  have "distinct (map fst (walk (path_Join p (fst f)) (snd f)))" using "5.IH"(1) [OF wt] .
  moreover have "distinct (map fst (walkEntries p files))" using "5.IH"(2) [OF we df] .
  ultimately show ?case using disj by simp
qed

lemma is_file_Dir_Nil [simp]: "\<not> is_file (Some (Dir err files))"
  by (simp add: is_file_def)

lemma is_file_None [simp]: "\<not> is_file None"
  by (simp add: is_file_def)

lemma is_file_File [simp]: "is_file (Some (File contents err))"
  by (simp add: is_file_def)

lemma walk_members:
  "wf_tree t \<Longrightarrow> listable t \<Longrightarrow>
     (p @ rel \<in> fst ` set (walk p t)) = is_file (lookup t rel)"
  "wf_entries fs \<Longrightarrow> distinct (map fst fs) \<Longrightarrow> listable_entries fs \<Longrightarrow>
     (p @ x # rel \<in> fst ` set (walkEntries p fs)) =
     (case map_of fs x of None \<Rightarrow> False | Some c \<Rightarrow> is_file (lookup c rel))"
proof (induction p t and p fs arbitrary: rel and x rel rule: walk_walkEntries.induct)
  case (1 p e)
  then show ?case by simp
next
  case (2 p err files)
  then have e: "err = None" and d: "distinct (map fst files)" and we: "wf_entries files"
    and le: "listable_entries files" by simp_all
  show ?case
  proof (cases rel)
    case Nil
    have "p \<notin> fst ` set (walkEntries p files)"
    proof
      assume "p \<in> fst ` set (walkEntries p files)"
      from walk_prefix(2) [OF we this] show False by simp
    qed
    with Nil e show ?thesis by simp
  next
    case (Cons x xs)
    with "2.IH" [OF e we d le, of x xs] e show ?thesis by (simp split: option.splits)
  qed
next
  case (3 p contents err)
  then show ?case by (cases rel) auto
next
  case (4 p)
  then show ?case by simp
next
  case (5 p f files)
  from "5.prems" have v: "valid_name (fst f)" and wt: "wf_tree (snd f)" and we: "wf_entries files"
    and nf: "fst f \<notin> fst ` set files" and df: "distinct (map fst files)"
    and lt: "listable (snd f)" and le: "listable_entries files"
    by simp_all
  have J: "path_Join p (fst f) = p @ [fst f]" using v by (rule path_Join_valid)
  show ?case
  proof (cases "x = fst f")
    case True
    have "p @ x # rel \<notin> fst ` set (walkEntries p files)"
    proof
      assume "p @ x # rel \<in> fst ` set (walkEntries p files)"
      from walk_prefix(2) [OF we this] obtain y rel' where "y \<in> fst ` set files" "p @ x # rel = p @ y # rel'"
        by blast
      with True nf show False by simp
    qed
    moreover have "(p @ x # rel \<in> fst ` set (walk (path_Join p (fst f)) (snd f))) = is_file (lookup (snd f) rel)"
      using "5.IH"(1) [OF wt lt, of rel] True by (simp add: J)
    moreover have "map_of (f # files) x = Some (snd f)" using True by (cases f) simp
    ultimately show ?thesis by (simp add: image_Un)
  next
    case False
    have "p @ x # rel \<notin> fst ` set (walk (path_Join p (fst f)) (snd f))"
    proof
      assume "p @ x # rel \<in> fst ` set (walk (path_Join p (fst f)) (snd f))"
      from walk_prefix(1) [OF wt this] obtain rel' where "p @ x # rel = path_Join p (fst f) @ rel'"
        by blast
      with False show False by (simp add: J)
    qed
    moreover have "map_of (f # files) x = map_of files x" using False by (cases f) simp
    ultimately show ?thesis using "5.IH"(2) [OF we df le, of x rel] by (simp add: image_Un)
  qed
qed

lemma count_list_distinct: "distinct xs \<Longrightarrow> count_list xs x = (if x \<in> set xs then 1 else 0)"
  by (induction xs) auto

lemma walk_visits:
  assumes "wf_tree t" and "listable t"
  shows "processed (processConfigChanges E src dst t w) = processed w @ map fst (walk src t)
       \<and> count_list (map fst (walk src t)) (src @ rel) = (if is_file (lookup t rel) then 1 else 0)
       \<and> (\<forall>q \<in> set (map fst (walk src t)). \<exists>r. q = src @ r \<and> is_file (lookup t r))"
proof (intro conjI ballI)
  show "processed (processConfigChanges E src dst t w) = processed w @ map fst (walk src t)"
    by (rule walk_processed)
next
  have "distinct (map fst (walk src t))" using assms(1) by (rule walk_distinct)
  then show "count_list (map fst (walk src t)) (src @ rel) = (if is_file (lookup t rel) then 1 else 0)"
    using walk_members(1) [OF assms, of src rel] by (simp add: count_list_distinct)
next
  fix q assume q: "q \<in> set (map fst (walk src t))"
  then have q': "q \<in> fst ` set (walk src t)" by simp
  from walk_prefix(1) [OF assms(1) q'] obtain r where r: "q = src @ r" by blast
  with q' walk_members(1) [OF assms, of src r] have "is_file (lookup t r)" by simp
  with r show "\<exists>r. q = src @ r \<and> is_file (lookup t r)" by blast
qed

lemma walk_of_node:
  "\<forall>f \<in> set (walk p n). \<not> blocks (target_file dst (fst f)) \<Longrightarrow>
     processConfigChanges_fs E blocks p dst (of_node n) w = Returned (processConfigChanges E p dst n w)"
  "\<forall>f \<in> set (walkEntries p fs). \<not> blocks (target_file dst (fst f)) \<Longrightarrow>
     processEntries_fs E blocks p dst (of_entries fs) w = Returned (processEntries E p dst fs w)"
  by (induction E p dst n w and E p dst fs w rule: processConfigChanges_processEntries.induct)
     (fastforce simp: Let_def target_file_def split: option.splits)+

text \<open>
  C10 (as amended). On a tree in which every read returns, every entry can be stat-ed and
  every directory can be listed (and the names of the entries are well formed), and when
  the target of no file of the tree blocks the write, the walk returns, and it has called
  \<^verbatim>\<open>processFile\<close> on the files of the tree in the order of the walk: once on each regular
  file of the tree (the path \<open>src @ rel\<close> is visited once when a regular file is at \<open>rel\<close>,
  and not at all otherwise), and on nothing else.
\<close>

theorem walk_returns_visiting_each_file_once:
  assumes "wf_tree t" and "listable t"
    and "\<forall>f \<in> set (walk src t). \<not> blocks (target_file dst (fst f))"
  shows "\<exists>w'. processConfigChanges_fs E blocks src dst (of_node t) w = Returned w'
       \<and> processed w' = processed w @ map fst (walk src t)
       \<and> count_list (map fst (walk src t)) (src @ rel) = (if is_file (lookup t rel) then 1 else 0)
       \<and> (\<forall>q \<in> set (map fst (walk src t)). \<exists>r. q = src @ r \<and> is_file (lookup t r))"
  using walk_visits [OF assms(1,2), of E src dst w rel] walk_of_node(1) [OF assms(3), of E w]
  by simp

text \<open>
  The walk of the example tree returns and has visited its two files, each once.
\<close>

theorem walk_returns_visiting_each_file_once_witness:
  "(\<exists>w'. processConfigChanges_fs example_env (\<lambda>p. False) [''config''] [''processed-config'']
           (of_node example_tree) example_world = Returned w'
      \<and> processed w' = [[''config'', ''a.yml''], [''config'', ''sub'', ''a.yml'']])
   \<and> count_list (map fst (walk [''config''] example_tree)) ([''config''] @ [''sub'', ''a.yml'']) = 1"
proof -
  have wf: "wf_tree example_tree" by (simp add: example_tree_def valid_name_def)
  have l: "listable example_tree" by (simp add: example_tree_def)
  have nb: "\<forall>f \<in> set (walk [''config''] example_tree).
      \<not> (\<lambda>p. False) (target_file [''processed-config''] (fst f))"
    by simp
  from walk_returns_visiting_each_file_once [OF wf l nb, where rel = "[''sub'', ''a.yml'']"
      and w = example_world and E = example_env]
  show ?thesis by (auto simp: path_Join_def example_tree_def example_world_def)
qed

text \<open>
  C10 as the specification states it fails. On a tree that holds a named pipe before
  \<^verbatim>\<open>z.yml\<close>, the walk stays in the read of the pipe: it does not return and never visits
  \<^verbatim>\<open>z.yml\<close>. On a tree with a directory that cannot be listed, the walk returns without
  having visited the regular file in that directory. And when the target of \<^verbatim>\<open>a.yml\<close> is a
  named pipe without a reader, the walk stays in the write to it.
\<close>

theorem walk_stuck_or_incomplete:
  "(case processConfigChanges_fs example_env (\<lambda>p. False) [''config''] [''processed-config'']
          (FsDir None [(''a.fifo'', FsFifo), (''z.yml'', FsFile ''x'' None)]) example_world of
      Returned w' \<Rightarrow> False
    | Stuck w' \<Rightarrow> processed w' = [[''config'', ''a.fifo'']])
   \<and> (case processConfigChanges_fs example_env (\<lambda>p. False) [''config''] [''processed-config'']
          (FsDir None [(''secret'', FsDir (Some ''permission denied'')
             [(''a.yml'', FsFile ''x'' None)])]) example_world of
        Returned w' \<Rightarrow> processed w' = []
      | Stuck w' \<Rightarrow> False)
   \<and> (case processConfigChanges_fs example_env (\<lambda>p. p = [''processed-config'', ''a.yml''])
          [''config''] [''processed-config'']
          (FsDir None [(''a.yml'', FsFile ''x'' None), (''z.yml'', FsFile ''x'' None)])
          example_world of
        Returned w' \<Rightarrow> False
      | Stuck w' \<Rightarrow> processed w' = [[''config'', ''a.yml'']] \<and> target w' = target example_world)"
  by (simp add: Let_def path_Join_def path_Split_def example_world_def logf_def processFile_def)

lemma walk_base_valid:
  "wf_tree t \<Longrightarrow> q \<in> fst ` set (walk p t) \<Longrightarrow> q = p \<or> (q \<noteq> [] \<and> valid_name (last q))"
  "wf_entries fs \<Longrightarrow> q \<in> fst ` set (walkEntries p fs) \<Longrightarrow> q \<noteq> [] \<and> valid_name (last q)"
proof (induction p t and p fs arbitrary: q and q rule: walk_walkEntries.induct)
  case (1 p e)
  then show ?case by simp
next
  case (2 p err files)
  show ?case
  proof (cases err)
    case None
    with "2.prems" have we: "wf_entries files" and q: "q \<in> fst ` set (walkEntries p files)"
      by simp_all
    from "2.IH" [OF None we q] show ?thesis by blast
  next
    case (Some a)
    with "2.prems" show ?thesis by simp
  qed
next
  case (3 p contents err)
  then show ?case by simp
next
  case (4 p)
  then show ?case by simp
next
  case (5 p f files)
  from "5.prems" have v: "valid_name (fst f)" and wt: "wf_tree (snd f)" and we: "wf_entries files"
    by simp_all
  from "5.prems"(2) consider
      (here) "q \<in> fst ` set (walk (path_Join p (fst f)) (snd f))"
    | (later) "q \<in> fst ` set (walkEntries p files)"
    by auto
  then show ?case
  proof cases
    case here
    from "5.IH"(1) [OF wt here] show ?thesis using v by (auto simp: path_Join_valid)
  next
    case later
    from "5.IH"(2) [OF we later] show ?thesis .
  qed
qed

lemma target_file_inj:
  assumes "p \<noteq> []" "valid_name (last p)" "q \<noteq> []" "valid_name (last q)"
  shows "(target_file dst p = target_file dst q) = (last p = last q)"
  using assms by (simp add: target_file_def path_Split_def path_Join_valid)

lemma walk_two_files:
  assumes "walk p t = xs @ f1 # ys @ f2 # zs" and "wf_tree t" and "q \<in> fst ` set (walk p t)"
  shows "q \<noteq> [] \<and> valid_name (last q)"
proof (cases t)
  case (StatErr e)
  with assms(1) show ?thesis by simp
next
  case (File contents err)
  with assms(1) show ?thesis by (simp add: Cons_eq_append_conv)
next
  case (Dir err files)
  show ?thesis
  proof (cases err)
    case None
    with Dir assms show ?thesis using walk_base_valid(2) [of files q p] by simp
  next
    case (Some a)
    with Dir assms(1) show ?thesis by simp
  qed
qed

text \<open>
  C9. When the walk processes two files with the same base name, the second one being the
  last file of that name in the walk, both are written to the same path of the target
  directory, and after the pass that path holds the substituted content of the second
  file (provided the write succeeds).
\<close>

theorem equal_base_names_last_wins:
  assumes walk: "walk src t = xs @ (p1, d1, e1) # ys @ (p2, d2, e2) # zs"
    and same: "snd (path_Split p1) = snd (path_Split p2)"
    and last: "\<forall>f \<in> set zs. snd (path_Split (fst f)) \<noteq> snd (path_Split p2)"
    and wf: "wf_tree t"
    and wr: "write_err E (path_Join dst (snd (path_Split p2))) = None"
  shows "path_Join dst (snd (path_Split p1)) = path_Join dst (snd (path_Split p2))
       \<and> target (processConfigChanges E src dst t w) (path_Join dst (snd (path_Split p2)))
           = Some (ExpandEnv (environ E) d2)"
proof
  show "path_Join dst (snd (path_Split p1)) = path_Join dst (snd (path_Split p2))"
    using same by simp
next
  let ?k = "target_file dst p2"
  have v: "\<And>q. q \<in> fst ` set (walk src t) \<Longrightarrow> q \<noteq> [] \<and> valid_name (last q)"
    using walk_two_files [OF walk wf] .
  have v2: "p2 \<noteq> [] \<and> valid_name (last p2)"
    by (rule v) (simp add: walk image_Un)
  have other: "\<forall>f \<in> set zs. target_file dst (fst f) \<noteq> ?k"
  proof
    fix f assume f: "f \<in> set zs"
    then have "fst f \<in> fst ` set (walk src t)" by (simp add: walk image_Un)
    then have vf: "fst f \<noteq> [] \<and> valid_name (last (fst f))" by (rule v)
    from last f have "snd (path_Split (fst f)) \<noteq> snd (path_Split p2)" by blast
    then have "last (fst f) \<noteq> last p2" using vf v2 by (simp add: path_Split_def)
    then show "target_file dst (fst f) \<noteq> ?k" using vf v2 by (simp add: target_file_inj)
  qed
  have "target (processConfigChanges E src dst t w) ?k =
        write_all E dst (xs @ (p1, d1, e1) # ys @ (p2, d2, e2) # zs) (target w) ?k"
    by (simp add: walk_target walk)
  also have "\<dots> = write_all E dst zs
        (write_all E dst [(p2, d2, e2)] (write_all E dst (xs @ (p1, d1, e1) # ys) (target w))) ?k"
    by (simp only: write_all_append [symmetric] append_Cons append_Nil append_assoc)
  also have "\<dots> = write_all E dst [(p2, d2, e2)] (write_all E dst (xs @ (p1, d1, e1) # ys) (target w)) ?k"
    using other by (rule write_all_other)
  also have "\<dots> = Some (ExpandEnv (environ E) d2)"
    using wr by (simp add: target_file_def written_ok)
  finally show "target (processConfigChanges E src dst t w) (path_Join dst (snd (path_Split p2)))
           = Some (ExpandEnv (environ E) d2)"
    by (simp add: target_file_def)
qed

text \<open>
  In the example tree, \<^verbatim>\<open>a.yml\<close> and \<^verbatim>\<open>sub/a.yml\<close> both go to \<^verbatim>\<open>a.yml\<close> in the target
  directory, which holds the content of \<^verbatim>\<open>sub/a.yml\<close> after the pass.
\<close>

theorem equal_base_names_last_wins_witness:
  "target (processConfigChanges example_env [''config''] [''processed-config'']
            example_tree example_world) [''processed-config'', ''a.yml''] = Some ''port: 1''"
proof -
  have w: "walk [''config''] example_tree =
      [] @ ([''config'', ''a.yml''], ''port: ${PORT}'', None) # [] @
      ([''config'', ''sub'', ''a.yml''], ''port: 1'', None) # []"
    by (simp add: example_tree_def path_Join_def)
  have same: "snd (path_Split [''config'', ''a.yml'']) = snd (path_Split [''config'', ''sub'', ''a.yml''])"
    by (simp add: path_Split_def)
  have last: "\<forall>f \<in> set []. snd (path_Split (fst f)) \<noteq> snd (path_Split [''config'', ''sub'', ''a.yml''])"
    by simp
  have wf: "wf_tree example_tree" by (simp add: example_tree_def valid_name_def)
  have wr: "write_err example_env
      (path_Join [''processed-config''] (snd (path_Split [''config'', ''sub'', ''a.yml'']))) = None"
    by (simp add: example_env_def)
  from equal_base_names_last_wins [OF w same last wf wr, of example_world]
  show ?thesis
    by (simp add: path_Split_def path_Join_def ExpandEnv_def example_env_def)
qed

text \<open>
  C5 fails on the code. When \<^verbatim>\<open>a.yml\<close> cannot be read, the error is logged but the file is
  not skipped: the target \<^verbatim>\<open>a.yml\<close>, which held \<^verbatim>\<open>port: 9090\<close>, is overwritten with the
  empty content. When the write of \<^verbatim>\<open>b.yml\<close> fails on a full disk, nothing is logged about
  it, and an empty \<^verbatim>\<open>b.yml\<close> is left in the target directory. The pass does go on to the
  next file after a failure.
\<close>

theorem read_error_still_writes:
  "target (processConfigChanges failing_env [''config''] [''processed-config'']
            (src_tree failing_env) example_world) [''processed-config'', ''a.yml''] = Some []
   \<and> logs (processConfigChanges failing_env [''config''] [''processed-config'']
            (src_tree failing_env) example_world) =
       [Log DebugLevel ''Processing changes for %v'' [Pth [''config'']],
        Log DebugLevel ''Processing changes for %v'' [Pth [''config'', ''a.yml'']],
        Log ErrorLevel ''Error reading %v: %v'' [Pth [''config'', ''a.yml''], Str ''permission denied''],
        Log DebugLevel ''writing updated content to %v'' [Pth [''processed-config'', ''a.yml'']],
        Log DebugLevel ''Processing changes for %v'' [Pth [''config'', ''b.yml'']],
        Log DebugLevel ''writing updated content to %v'' [Pth [''processed-config'', ''b.yml'']]]
   \<and> target (processConfigChanges failing_env [''config''] [''processed-config'']
            (src_tree failing_env) example_world) [''processed-config'', ''b.yml''] = Some []"
  by (simp add: failing_env_def example_world_def processFile_def WriteFile_def Let_def logf_def
      path_Join_def path_Split_def ExpandEnv_def)

subsection \<open>The coordinator\<close>

lemma notifyPrometheus_fields [simp]:
  "target (notifyPrometheus E url w) = target w"
  "posts (notifyPrometheus E url w) = posts w @ [url]"
  "processed (notifyPrometheus E url w) = processed w"
  "calls (notifyPrometheus E url w) = calls w"
  by (simp_all add: notifyPrometheus_def Let_def split: sum.splits)

lemma onTimer_coordinator [simp]:
  "lastConfigChange (onTimer cfg E s) = lastConfigChange s"
  "delayTimer (onTimer cfg E s) = delayTimer s"
  "fileChangeTime (onTimer cfg E s) = fileChangeTime s"
  by (simp_all add: onTimer_def Let_def)

lemma onTimer_pass:
  assumes "Before (lastConfigProcess s) (lastConfigChange s)"
  shows "lastConfigProcess (onTimer cfg E s) = done_time E"
    and "calls (outside (onTimer cfg E s)) = calls (outside s) @
           [CallPipeline (watchedPath cfg) (targetPath cfg), CallNotifier (prometheusUrl cfg)]"
    and "posts (outside (onTimer cfg E s)) = posts (outside s) @ [prometheusUrl cfg]"
  using assms by (simp_all add: onTimer_def Let_def walk_calls walk_posts)


lemma iteration_TimerFire:
  "fires (wake_time E) (delayTimer s) \<Longrightarrow>
     iteration cfg E TimerFire s = Some (Running (onTimer cfg E (s\<lparr>delayTimer := None\<rparr>)))"
  by (simp add: iteration_def)

lemma iteration_not_armed: "delayTimer s = None \<Longrightarrow> iteration cfg E TimerFire s = None"
  by (simp add: iteration_def fires_def)



text \<open>
  C6. A timer firing that starts a pass sets \<open>lastConfigProcess\<close> to the current time,
  whatever the files and the reload request do (the conditions \<open>E\<close> are arbitrary: reads,
  listings, writes and the request may fail). Nothing else of the coordinator changes: the
  last change and the channel stay, and the timer is left unarmed, so that no further pass
  can start before a new change arrives: nothing retries.
\<close>

theorem pass_advances_lastConfigProcess:
  assumes "fires (wake_time E) (delayTimer s)"
    and "Before (lastConfigProcess s) (lastConfigChange s)"
  shows "\<exists>s'. iteration cfg E TimerFire s = Some (Running s')
      \<and> lastConfigProcess s' = done_time E
      \<and> lastConfigChange s' = lastConfigChange s
      \<and> fileChangeTime s' = fileChangeTime s
      \<and> delayTimer s' = None
      \<and> iteration cfg E2 TimerFire s' = None"
proof -
  have b: "Before (lastConfigProcess (s\<lparr>delayTimer := None\<rparr>)) (lastConfigChange (s\<lparr>delayTimer := None\<rparr>))"
    using assms(2) by simp
  have "iteration cfg E2 TimerFire (onTimer cfg E (s\<lparr>delayTimer := None\<rparr>)) = None"
    by (rule iteration_not_armed) simp
  then show ?thesis
    using iteration_TimerFire [OF assms(1), of cfg] onTimer_pass(1) [OF b, of cfg E]
    by simp
qed

text \<open>
  A pass in which a file cannot be read, another cannot be written and the reload request
  is refused still advances \<open>lastConfigProcess\<close>, and the timer does not fire again.
\<close>

theorem pass_advances_lastConfigProcess_witness:
  "\<exists>s'. iteration example_config failing_env TimerFire (example_coordinator 0) = Some (Running s')
      \<and> lastConfigProcess s' = 101 \<and> lastConfigChange s' = 50 \<and> delayTimer s' = None
      \<and> iteration example_config example_env TimerFire s' = None"
proof -
  have f: "fires (wake_time failing_env) (delayTimer (example_coordinator 0))"
    by (simp add: fires_def failing_env_def example_coordinator_def)
  have b: "Before (lastConfigProcess (example_coordinator 0)) (lastConfigChange (example_coordinator 0))"
    by (simp add: Before_def example_coordinator_def)
  from pass_advances_lastConfigProcess [OF f b, of example_config example_env]
  show ?thesis
    by (auto simp: example_coordinator_def failing_env_def)
qed

lemma passes_logf [simp]: "passes (logf l fmt args w) = passes w"
  by (simp add: passes_def)





subsection \<open>The listener and its channel\<close>

lemma listenForChanges_append:
  "listenForChanges (xs @ ys) = listenForChanges xs @ listenForChanges ys"
  by (induction xs rule: listenForChanges.induct) (simp_all split: sum.splits)

lemma sends_append: "sends (xs @ ys) = sends xs @ sends ys"
  by (induction xs rule: sends.induct) simp_all

lemma logged_append: "logged (xs @ ys) = logged xs @ logged ys"
  by (induction xs rule: logged.induct) simp_all

text \<open>
  C8. An event whose path cannot be stat-ed sends nothing on the channel and logs the
  error; what the listener does for the events before it and after it is what it does
  without that event: the loop goes on.
\<close>

theorem stat_failure_drops_event:
  "listenForChanges (pre @ WatcherEvent name (Inl err) # post) =
     listenForChanges pre @
     [LogCall (Log DebugLevel ''Received an event for %v'' [Str name]),
      LogCall (Log ErrorLevel ''Could not get modified time for %v: %v'' [Str name, Str err])] @
     listenForChanges post
   \<and> sends (listenForChanges (pre @ WatcherEvent name (Inl err) # post)) =
       sends (listenForChanges pre) @ sends (listenForChanges post)
   \<and> logged (listenForChanges (pre @ WatcherEvent name (Inl err) # post)) =
       logged (listenForChanges pre) @
       [Log DebugLevel ''Received an event for %v'' [Str name],
        Log ErrorLevel ''Could not get modified time for %v: %v'' [Str name, Str err]] @
       logged (listenForChanges post)"
  by (simp add: listenForChanges_append sends_append logged_append)

lemma system_start_unbuffered:
  "system_start cfg S w = Goes s0 \<Longrightarrow> unbuffered s0 \<and> pass s0 = None \<and> sending s0 = None"
  by (auto simp: system_start_def main_start_def startWatchingPath_def Let_def make_chan_def
      unbuffered_def split: option.splits started.splits add_error.splits)

lemma iteration_channel:
  "iteration cfg E ev c = Some (Running c') \<Longrightarrow> fileChangeTime c' = fileChangeTime c"
  by (auto simp: iteration_def split: event.splits if_splits)

lemma receive_unbuffered:
  "unbuffered s \<Longrightarrow> receive s = (case sending s of None \<Rightarrow> None | Some t \<Rightarrow> Some (t, s\<lparr>sending := None\<rparr>))"
  by (simp add: receive_def unbuffered_def chan_send_def split: option.splits)

lemma Buffer_unbuffered: "unbuffered s \<Longrightarrow> system_step cfg Buffer s = None"
  by (simp add: system_step_def unbuffered_def chan_send_def split: option.splits)

lemma step_unbuffered:
  assumes "system_step cfg st s = Some (Goes s')" and "unbuffered s"
  shows "unbuffered s'"
proof (cases st)
  case (Watch x)
  with assms show ?thesis
    by (auto simp: system_step_def unbuffered_def Let_def split: option.splits)
next
  case Buffer
  with assms Buffer_unbuffered show ?thesis by simp
next
  case (Select E ev)
  show ?thesis
  proof (cases ev)
    case Signal
    with Select assms show ?thesis
      by (auto simp: system_step_def continue_def iteration_def split: option.splits)
  next
    case (FileChange t)
    with Select assms show ?thesis
      by (auto simp: system_step_def continue_def iteration_def receive_unbuffered unbuffered_def
          split: option.splits if_splits)
  next
    case TimerFire
    with Select assms show ?thesis
      by (auto simp: system_step_def continue_def iteration_def unbuffered_def
          split: option.splits if_splits)
  qed
next
  case Finish
  with assms show ?thesis
    by (auto simp: system_step_def unbuffered_def split: option.splits)
qed

lemma run_unbuffered:
  "system_run cfg steps s = Some (Goes s') \<Longrightarrow> unbuffered s \<Longrightarrow> unbuffered s'"
proof (induction steps arbitrary: s)
  case Nil
  then show ?case by simp
next
  case (Cons st rest)
  from Cons.prems(1) obtain s1 where s1: "system_step cfg st s = Some (Goes s1)"
    and r: "system_run cfg rest s1 = Some (Goes s')"
    by (auto split: option.splits progress.splits)
  from step_unbuffered [OF s1 Cons.prems(2)] have "unbuffered s1" .
  with Cons.IH [OF r] show ?case .
qed

lemma pass_steps_iteration:
  assumes "pass s = None" and "fires (wake_time E) (delayTimer (coord s))"
    and "Before (lastConfigProcess (coord s)) (lastConfigChange (coord s))"
  shows "system_run cfg [Select E TimerFire, Finish] s = continue s (iteration cfg E TimerFire (coord s))"
  using assms by (cases s) (simp add: system_step_def continue_def iteration_def onTimer_def Let_def)

lemma blocked_no_Watch: "sending s = Some t \<Longrightarrow> system_step cfg (Watch x) s = None"
  by (simp add: system_step_def)

lemma busy_no_Select: "pass s = Some E0 \<Longrightarrow> system_step cfg (Select E ev) s = None"
  by (simp add: system_step_def)

lemma busy_Finish:
  "pass s = Some E0 \<Longrightarrow>
     system_step cfg Finish s = Some (Goes (s\<lparr>coord := onTimer cfg E0 (coord s), pass := None\<rparr>))"
  by (simp add: system_step_def)

lemma Select_receive:
  assumes "unbuffered s" and "pass s = None" and "sending s = Some t"
  shows "system_step cfg (Select E (FileChange u)) s =
     (if u = t
      then Some (Goes (s\<lparr>sending := None,
                        coord := (coord s)\<lparr>lastConfigChange := t,
                          delayTimer := Some (wake_time E + processDelayTime cfg)\<rparr>\<rparr>))
      else None)"
  using assms
  by (simp add: system_step_def receive_unbuffered continue_def iteration_def Reset_def)

lemma Select_timer_idle:
  assumes "pass s = None" and "\<not> Before (lastConfigProcess (coord s)) (lastConfigChange (coord s))"
  shows "system_step cfg (Select E TimerFire) s =
     (if fires (wake_time E) (delayTimer (coord s))
      then Some (Goes (s\<lparr>coord := (coord s)\<lparr>delayTimer := None\<rparr>\<rparr>))
      else None)"
  using assms
  by (simp add: system_step_def continue_def iteration_def onTimer_def)

lemma blocked_stays:
  assumes "unbuffered s" and "sending s = Some t" and "system_step cfg st s = Some (Goes s')"
  shows "sending s' = Some t \<or> (\<exists>E. st = Select E (FileChange t) \<and> lastConfigChange (coord s') = t)"
proof (cases st)
  case (Watch x)
  with assms show ?thesis by (simp add: blocked_no_Watch)
next
  case Buffer
  with assms show ?thesis by (simp add: Buffer_unbuffered)
next
  case (Select E ev)
  show ?thesis
  proof (cases "pass s")
    case (Some E0)
    with Select assms show ?thesis by (simp add: busy_no_Select)
  next
    case None
    show ?thesis
    proof (cases ev)
      case Signal
      with Select None assms show ?thesis
        by (simp add: system_step_def continue_def iteration_def)
    next
      case (FileChange u)
      with Select None assms show ?thesis
        by (auto simp: Select_receive split: if_splits)
    next
      case TimerFire
      with Select None assms show ?thesis
        by (auto simp: system_step_def continue_def iteration_def split: if_splits)
    qed
  qed
next
  case Finish
  with assms show ?thesis
    by (auto simp: system_step_def split: option.splits)
qed

lemmas eval_defs =
  system_start_def main_start_def startWatchingPath_def example_startup_def example_config_def
  example_world_def Let_def system_step_def first_pass_env_def receive_env_def second_fire_env_def
  change_event_def fires_def NewTimer_def Before_def zeroTime_def make_chan_def continue_def
  iteration_def onTimer_def processFile_def WriteFile_def notifyPrometheus_def logf_def
  path_Join_def path_Split_def ExpandEnv_def passes_def receive_def chan_send_def Reset_def

text \<open>
  C2 (as amended). In every state that the two tasks reach from the start of \<^verbatim>\<open>main\<close> and
  in which the listener is blocked in the send of a timestamp \<open>t\<close>:
  \<^item> the channel has capacity 0 and buffers nothing;
  \<^item> the send cannot go into a buffer, and the listener takes no further event;
  \<^item> while a pass runs, the coordinator takes no case of its \<^verbatim>\<open>select\<close>: the only step is
    the end of the pass, after which the listener is still blocked with \<open>t\<close>;
  \<^item> when the coordinator waits in its \<^verbatim>\<open>select\<close>, the receive case takes \<open>t\<close> and no other
    value: \<open>lastConfigChange\<close> becomes \<open>t\<close>, the timer is armed for the quiet period and the
    listener goes on; if \<open>t\<close> is not after \<open>lastConfigProcess\<close> (the change was made before
    the last pass ended), a firing of the timer after that starts no pass and changes
    nothing but the timer;
  \<^item> no step takes \<open>t\<close> from the listener except that receive, which stores it.
\<close>

theorem unbuffered_send_waits_for_select:
  assumes start: "system_start cfg S w0 = Goes s0"
    and reach: "system_run cfg steps s0 = Some (Goes s)"
    and blocked: "sending s = Some t"
  shows "capacity (fileChangeTime (coord s)) = 0 \<and> buffer (fileChangeTime (coord s)) = []
    \<and> system_step cfg Buffer s = None
    \<and> system_step cfg (Watch x) s = None
    \<and> (pass s \<noteq> None \<longrightarrow>
         system_step cfg (Select E ev) s = None
         \<and> (\<exists>s'. system_step cfg Finish s = Some (Goes s') \<and> sending s' = Some t \<and> pass s' = None))
    \<and> (pass s = None \<longrightarrow>
         (\<exists>s'. system_step cfg (Select E (FileChange t)) s = Some (Goes s')
            \<and> sending s' = None \<and> pass s' = None
            \<and> lastConfigChange (coord s') = t
            \<and> lastConfigProcess (coord s') = lastConfigProcess (coord s)
            \<and> delayTimer (coord s') = Some (wake_time E + processDelayTime cfg)
            \<and> (\<not> Before (lastConfigProcess (coord s)) t \<longrightarrow>
                 system_step cfg (Select E2 TimerFire) s' =
                   (if fires (wake_time E2) (delayTimer (coord s'))
                    then Some (Goes (s'\<lparr>coord := (coord s')\<lparr>delayTimer := None\<rparr>\<rparr>))
                    else None))))
    \<and> (\<forall>st s'. system_step cfg st s = Some (Goes s') \<longrightarrow>
          sending s' = Some t \<or>
          (\<exists>E'. st = Select E' (FileChange t) \<and> lastConfigChange (coord s') = t))"
proof -
  have u0: "unbuffered s0" using system_start_unbuffered [OF start] by simp
  have u: "unbuffered s" using run_unbuffered [OF reach u0] .
  have c1: "capacity (fileChangeTime (coord s)) = 0 \<and> buffer (fileChangeTime (coord s)) = []"
    using u by (simp add: unbuffered_def)
  have c2: "system_step cfg Buffer s = None" using u by (rule Buffer_unbuffered)
  have c3: "system_step cfg (Watch x) s = None" using blocked by (rule blocked_no_Watch)
  have c4: "pass s \<noteq> None \<longrightarrow>
         system_step cfg (Select E ev) s = None
         \<and> (\<exists>s'. system_step cfg Finish s = Some (Goes s') \<and> sending s' = Some t \<and> pass s' = None)"
    using blocked by (auto simp: busy_no_Select busy_Finish)
  have c5: "pass s = None \<longrightarrow>
         (\<exists>s'. system_step cfg (Select E (FileChange t)) s = Some (Goes s')
            \<and> sending s' = None \<and> pass s' = None
            \<and> lastConfigChange (coord s') = t
            \<and> lastConfigProcess (coord s') = lastConfigProcess (coord s)
            \<and> delayTimer (coord s') = Some (wake_time E + processDelayTime cfg)
            \<and> (\<not> Before (lastConfigProcess (coord s)) t \<longrightarrow>
                 system_step cfg (Select E2 TimerFire) s' =
                   (if fires (wake_time E2) (delayTimer (coord s'))
                    then Some (Goes (s'\<lparr>coord := (coord s')\<lparr>delayTimer := None\<rparr>\<rparr>))
                    else None)))"
  proof
    assume p: "pass s = None"
    let ?s' = "s\<lparr>sending := None,
                  coord := (coord s)\<lparr>lastConfigChange := t,
                    delayTimer := Some (wake_time E + processDelayTime cfg)\<rparr>\<rparr>"
    have st: "system_step cfg (Select E (FileChange t)) s = Some (Goes ?s')"
      using Select_receive [OF u p blocked, of cfg E t] by simp
    have idle: "\<not> Before (lastConfigProcess (coord s)) t \<longrightarrow>
        system_step cfg (Select E2 TimerFire) ?s' =
          (if fires (wake_time E2) (delayTimer (coord ?s'))
           then Some (Goes (?s'\<lparr>coord := (coord ?s')\<lparr>delayTimer := None\<rparr>\<rparr>))
           else None)"
    proof
      assume nb: "\<not> Before (lastConfigProcess (coord s)) t"
      have p': "pass ?s' = None" using p by simp
      have nb': "\<not> Before (lastConfigProcess (coord ?s')) (lastConfigChange (coord ?s'))"
        using nb by simp
      show "system_step cfg (Select E2 TimerFire) ?s' =
          (if fires (wake_time E2) (delayTimer (coord ?s'))
           then Some (Goes (?s'\<lparr>coord := (coord ?s')\<lparr>delayTimer := None\<rparr>\<rparr>))
           else None)"
        using Select_timer_idle [OF p' nb'] .
    qed
    show "\<exists>s'. system_step cfg (Select E (FileChange t)) s = Some (Goes s')
            \<and> sending s' = None \<and> pass s' = None
            \<and> lastConfigChange (coord s') = t
            \<and> lastConfigProcess (coord s') = lastConfigProcess (coord s)
            \<and> delayTimer (coord s') = Some (wake_time E + processDelayTime cfg)
            \<and> (\<not> Before (lastConfigProcess (coord s)) t \<longrightarrow>
                 system_step cfg (Select E2 TimerFire) s' =
                   (if fires (wake_time E2) (delayTimer (coord s'))
                    then Some (Goes (s'\<lparr>coord := (coord s')\<lparr>delayTimer := None\<rparr>\<rparr>))
                    else None))"
      using st idle p by (intro exI [of _ ?s']) simp
  qed
  have c6: "\<forall>st s'. system_step cfg st s = Some (Goes s') \<longrightarrow>
          sending s' = Some t \<or>
          (\<exists>E'. st = Select E' (FileChange t) \<and> lastConfigChange (coord s') = t)"
    using blocked_stays [OF u blocked] by blast
  from c1 c2 c3 c4 c5 c6 show ?thesis by blast
qed

text \<open>
  After the start, a timer firing begins a pass and a change event arrives during it: the
  listener is blocked with 200, nothing is buffered, the coordinator does not receive, and
  the listener is still blocked when the pass ends. Then the coordinator receives 200 and
  arms the timer; its firing starts no pass.
\<close>

theorem unbuffered_send_waits_for_select_witness:
  "\<exists>s0 s r. system_start example_config example_startup example_world = Goes s0
      \<and> system_run example_config [Select first_pass_env TimerFire, Watch change_event] s0 = Some (Goes s)
      \<and> sending s = Some 200
      \<and> system_step example_config Buffer s = None
      \<and> system_step example_config (Select receive_env (FileChange 200)) s = None
      \<and> (\<exists>s'. system_step example_config Finish s = Some (Goes s') \<and> sending s' = Some 200)
      \<and> system_run example_config [Select first_pass_env TimerFire, Watch change_event, Finish] s0 = Some (Goes r)
      \<and> sending r = Some 200
      \<and> (\<exists>r'. system_step example_config (Select receive_env (FileChange 200)) r = Some (Goes r')
            \<and> sending r' = None
            \<and> lastConfigChange (coord r') = 200
            \<and> delayTimer (coord r') = Some 5000000300
            \<and> system_step example_config (Select second_fire_env TimerFire) r' =
                Some (Goes (r'\<lparr>coord := (coord r')\<lparr>delayTimer := None\<rparr>\<rparr>)))"
proof -
  have "\<exists>s0 s r. system_start example_config example_startup example_world = Goes s0
      \<and> system_run example_config [Select first_pass_env TimerFire, Watch change_event] s0 = Some (Goes s)
      \<and> sending s = Some 200 \<and> pass s \<noteq> None
      \<and> system_run example_config [Select first_pass_env TimerFire, Watch change_event, Finish] s0 = Some (Goes r)
      \<and> sending r = Some 200 \<and> pass r = None \<and> lastConfigProcess (coord r) = 300"
    by (simp add: eval_defs)
  then obtain s0 s r where
    start: "system_start example_config example_startup example_world = Goes s0"
    and reach: "system_run example_config [Select first_pass_env TimerFire, Watch change_event] s0 = Some (Goes s)"
    and blocked: "sending s = Some 200" and busy: "pass s \<noteq> None"
    and reach2: "system_run example_config [Select first_pass_env TimerFire, Watch change_event, Finish] s0 = Some (Goes r)"
    and blocked2: "sending r = Some 200" and idle: "pass r = None"
    and p: "lastConfigProcess (coord r) = 300"
    by blast
  from unbuffered_send_waits_for_select [OF start reach blocked,
      where E = receive_env and ev = "FileChange 200"] busy
  have a: "system_step example_config Buffer s = None
      \<and> system_step example_config (Select receive_env (FileChange 200)) s = None
      \<and> (\<exists>s'. system_step example_config Finish s = Some (Goes s') \<and> sending s' = Some 200)"
    by blast
  from unbuffered_send_waits_for_select [OF start reach2 blocked2,
      where E = receive_env and ?E2.0 = second_fire_env] idle
  obtain r' where r': "system_step example_config (Select receive_env (FileChange 200)) r = Some (Goes r')"
    and b: "sending r' = None" "lastConfigChange (coord r') = 200"
      "delayTimer (coord r') = Some (wake_time receive_env + processDelayTime example_config)"
    and c: "\<not> Before (lastConfigProcess (coord r)) 200 \<longrightarrow>
        system_step example_config (Select second_fire_env TimerFire) r' =
          (if fires (wake_time second_fire_env) (delayTimer (coord r'))
           then Some (Goes (r'\<lparr>coord := (coord r')\<lparr>delayTimer := None\<rparr>\<rparr>)) else None)"
    by blast
  from b have d: "delayTimer (coord r') = Some 5000000300"
    by (simp add: receive_env_def example_config_def)
  from c p d have e: "system_step example_config (Select second_fire_env TimerFire) r' =
      Some (Goes (r'\<lparr>coord := (coord r')\<lparr>delayTimer := None\<rparr>\<rparr>))"
    by (simp add: Before_def fires_def second_fire_env_def)
  from start reach blocked a reach2 blocked2 r' b(1,2) d e show ?thesis by blast
qed

text \<open>
  C2 as the specification states it fails. The channel that \<^verbatim>\<open>startWatchingPath\<close> creates
  buffers no value: during the pass the send of the listener can neither go into a buffer
  nor be received. And the change is lost: \<^verbatim>\<open>rules.yml\<close> is changed at 200, after the pass
  that runs from 100 to 300 has read it; its timestamp is received after the pass, the
  timer fires after the quiet period, and no pass runs, since 300 is not before 200. The
  target keeps the content from before the change, and no timer is armed.
\<close>

theorem change_during_pass_is_lost:
  "(case system_start example_config example_startup example_world of
      Ended code w \<Rightarrow> False
    | Goes s0 \<Rightarrow>
        \<not> 1 \<le> capacity (fileChangeTime (coord s0))
        \<and> system_run example_config
            [Select first_pass_env TimerFire, Watch change_event, Buffer] s0 = None
        \<and> system_run example_config
            [Select first_pass_env TimerFire, Watch change_event,
             Select receive_env (FileChange 200)] s0 = None
        \<and> (case system_run example_config
                 [Select first_pass_env TimerFire, Watch change_event, Finish,
                  Select receive_env (FileChange 200), Select second_fire_env TimerFire] s0 of
              None \<Rightarrow> False
            | Some (Ended code w) \<Rightarrow> False
            | Some (Goes s) \<Rightarrow>
                passes (outside (coord s)) = 1
                \<and> lastConfigProcess (coord s) = 300
                \<and> lastConfigChange (coord s) = 200
                \<and> delayTimer (coord s) = None \<and> pass s = None \<and> sending s = None
                \<and> target (outside (coord s)) [''processed-config'', ''rules.yml''] = Some ''v1''))"
  by (simp add: eval_defs)

end
